theory Spec2Isabelle
  imports Main "HOL-Library.AList"
begin

section \<open>Byte pair encoding: the model of \<^verbatim>\<open>BPETokenizer\<close>\<close>

text \<open>
  The source is the class \<^verbatim>\<open>BPETokenizer\<close> of \<^verbatim>\<open>byte_pair_encoding.py\<close>.
  Python integers are unbounded, so symbol ids are \<open>int\<close>. A \<^verbatim>\<open>bytes\<close> value is a
  \<open>string\<close>, that is a list of \<open>char\<close>, each one byte. The argument \<^verbatim>\<open>text\<close> of
  \<^verbatim>\<open>train\<close> is represented by the bytes that \<^verbatim>\<open>text.encode("utf-8")\<close> yields.
  A string that has no UTF-8 encoding (a lone surrogate) makes \<^verbatim>\<open>encode\<close> raise before
  \<^verbatim>\<open>train\<close> has touched any state; such strings are outside the model.
  A Python \<^verbatim>\<open>dict\<close> (and \<^verbatim>\<open>Counter\<close>) iterates in insertion order, and the code
  depends on that order, so each dictionary is an association list with distinct keys,
  oldest key first. A method that updates the object returns the updated tokenizer
  beside its value; a raised exception is the \<open>Inl\<close> of a sum type.
\<close>

subsection \<open>Dictionaries\<close>

type_synonym ('k, 'v) dict = "('k \<times> 'v) list"

text \<open>\<^verbatim>\<open>d[k] = v\<close>: an existing key keeps its position, a new key goes to the end.\<close>

fun dict_set :: "('k, 'v) dict \<Rightarrow> 'k \<Rightarrow> 'v \<Rightarrow> ('k, 'v) dict" where
  "dict_set [] k v = [(k, v)]"
| "dict_set (p # ps) k v = (if fst p = k then (k, v) # ps else p # dict_set ps k v)"

text \<open>\<^verbatim>\<open>d.get(k)\<close>: the value stored under the key, if any.\<close>

definition dict_get :: "('k, 'v) dict \<Rightarrow> 'k \<Rightarrow> 'v option" where
  "dict_get d k = map_of d k"

datatype py_error = KeyError

text \<open>\<^verbatim>\<open>d[k]\<close> as an expression raises \<^verbatim>\<open>KeyError\<close> on a missing key.\<close>

definition dict_lookup :: "('k, 'v) dict \<Rightarrow> 'k \<Rightarrow> py_error + 'v" where
  "dict_lookup d k = (case dict_get d k of None \<Rightarrow> Inl KeyError | Some v \<Rightarrow> Inr v)"

text \<open>
  \<^verbatim>\<open>Counter(iterable)\<close> runs over the iterable once and, for each element, stores one
  more than the count it had (zero when absent).
\<close>

definition counter_add :: "('k, nat) dict \<Rightarrow> 'k \<Rightarrow> ('k, nat) dict" where
  "counter_add c x = dict_set c x ((case dict_get c x of None \<Rightarrow> 0 | Some n \<Rightarrow> n) + 1)"

definition Counter :: "'k list \<Rightarrow> ('k, nat) dict" where
  "Counter xs = foldl counter_add [] xs"

text \<open>Reading a \<^verbatim>\<open>Counter\<close> at a missing key gives 0.\<close>

definition counter_get :: "('k, nat) dict \<Rightarrow> 'k \<Rightarrow> nat" where
  "counter_get c k = (case dict_get c k of None \<Rightarrow> 0 | Some n \<Rightarrow> n)"

text \<open>
  \<^verbatim>\<open>max(items, key=f)\<close> on a non-empty sequence keeps the first item and replaces it
  only by an item whose key is strictly greater, so of several maximal items the first in
  iteration order is returned.
\<close>

fun py_max_key :: "('a \<Rightarrow> 'b::linorder) \<Rightarrow> 'a \<Rightarrow> 'a list \<Rightarrow> 'a" where
  "py_max_key f best [] = best"
| "py_max_key f best (x # xs) = py_max_key f (if f best < f x then x else best) xs"

subsection \<open>The tokenizer\<close>

record BPETokenizer =
  vocab_size :: int
  merges :: "(int \<times> int, int) dict"
  vocab :: "(int, string) dict"

text \<open>\<^verbatim>\<open>__init__\<close> stores its argument and two empty dictionaries. It has no check.\<close>

definition BPETokenizer_init :: "int \<Rightarrow> BPETokenizer" where
  "BPETokenizer_init vs = \<lparr>vocab_size = vs, merges = [], vocab = []\<rparr>"

text \<open>
  The constructor call \<^verbatim>\<open>BPETokenizer(vocab_size)\<close> as an operation that may fail:
  it runs \<^verbatim>\<open>__init__\<close>, which contains no \<^verbatim>\<open>raise\<close>.
\<close>

definition BPETokenizer_new :: "int \<Rightarrow> py_error + BPETokenizer" where
  "BPETokenizer_new vs = Inr (BPETokenizer_init vs)"

text \<open>\<^verbatim>\<open>_get_stats\<close>: \<^verbatim>\<open>Counter(zip(ids, ids[1:]))\<close>.\<close>

definition get_stats :: "int list \<Rightarrow> (int \<times> int, nat) dict" where
  "get_stats ids = Counter (zip ids (drop 1 ids))"

text \<open>
  \<^verbatim>\<open>_merge\<close>: the \<^verbatim>\<open>while\<close> loop over the index \<open>i\<close>, with the output list
  \<open>newids\<close> built by appending. Inside the loop \<open>i < length\<close>, so \<open>length - 1\<close> does not
  go below zero and \<open>ids ! i\<close>, \<open>ids ! (i + 1)\<close> are read in range.
\<close>

function merge_loop :: "int list \<Rightarrow> int \<times> int \<Rightarrow> int \<Rightarrow> nat \<Rightarrow> int list \<Rightarrow> int list" where
  "merge_loop ids pair idx i newids =
     (if i < length ids then
        (if i < length ids - 1 \<and> (ids ! i, ids ! (i + 1)) = pair
         then merge_loop ids pair idx (i + 2) (newids @ [idx])
         else merge_loop ids pair idx (i + 1) (newids @ [ids ! i]))
      else newids)"
  by pat_completeness auto
termination
  by (relation "measure (\<lambda>(ids, pair, idx, i, newids). length ids - i)") auto

declare merge_loop.simps [simp del]

definition merge :: "int list \<Rightarrow> int \<times> int \<Rightarrow> int \<Rightarrow> int list" where
  "merge ids pair idx = merge_loop ids pair idx 0 []"

text \<open>
  The selection in \<^verbatim>\<open>train\<close>: \<^verbatim>\<open>if not stats: break\<close> followed by
  \<^verbatim>\<open>max(stats.items(), key=lambda x: x[1])\<close>. \<open>None\<close> stands for the \<^verbatim>\<open>break\<close>.
\<close>

definition select_pair :: "(int \<times> int, nat) dict \<Rightarrow> ((int \<times> int) \<times> nat) option" where
  "select_pair stats = (case stats of [] \<Rightarrow> None | x # xs \<Rightarrow> Some (py_max_key snd x xs))"

text \<open>\<^verbatim>\<open>{i: bytes([i]) for i in range(256)}\<close>\<close>

definition vocab_init :: "(int, string) dict" where
  "vocab_init = map (\<lambda>i. (i, [char_of i])) [0..255]"

text \<open>
  The rest of the loop body for iteration \<open>i\<close>, once a pair is selected: the new id, the
  rewrite of \<open>ids\<close>, the store into \<open>merges\<close>, then the two reads of \<open>vocab\<close> (each may
  raise \<^verbatim>\<open>KeyError\<close>) and the store of the concatenation. The \<^verbatim>\<open>print\<close> under
  \<^verbatim>\<open>verbose\<close> changes no state and is left out.
\<close>

definition train_body ::
  "int \<Rightarrow> int list \<Rightarrow> BPETokenizer \<Rightarrow> int \<times> int \<Rightarrow> py_error + (int list \<times> BPETokenizer)" where
  "train_body i ids self pair =
     (let idx = 256 + i;
          ids' = merge ids pair idx;
          self' = self\<lparr>merges := dict_set (merges self) pair idx\<rparr>
      in case dict_lookup (vocab self') (fst pair) of
           Inl e \<Rightarrow> Inl e
         | Inr a \<Rightarrow>
             (case dict_lookup (vocab self') (snd pair) of
                Inl e \<Rightarrow> Inl e
              | Inr b \<Rightarrow> Inr (ids', self'\<lparr>vocab := dict_set (vocab self') idx (a @ b)\<rparr>)))"

text \<open>
  \<^verbatim>\<open>for i in range(num_merges)\<close>: the loop from index \<open>i\<close> up to \<open>num_merges\<close>,
  leaving at the \<^verbatim>\<open>break\<close> with the state as it is.
\<close>

function train_loop ::
  "int \<Rightarrow> int \<Rightarrow> int list \<Rightarrow> BPETokenizer \<Rightarrow> py_error + (int list \<times> BPETokenizer)" where
  "train_loop i num_merges ids self =
     (if i < num_merges then
        (case select_pair (get_stats ids) of
           None \<Rightarrow> Inr (ids, self)
         | Some pf \<Rightarrow>
             (case train_body i ids self (fst pf) of
                Inl e \<Rightarrow> Inl e
              | Inr s \<Rightarrow> train_loop (i + 1) num_merges (fst s) (snd s)))
      else Inr (ids, self))"
  by pat_completeness auto
termination
  by (relation "measure (\<lambda>(i, num_merges, ids, self). nat (num_merges - i))") auto

declare train_loop.simps [simp del]

text \<open>\<^verbatim>\<open>train\<close> returns the final \<open>ids\<close>; the tokenizer it has updated is returned with it.\<close>

definition train :: "BPETokenizer \<Rightarrow> string \<Rightarrow> py_error + (int list \<times> BPETokenizer)" where
  "train self text =
     (let ids = map of_char text;
          self1 = self\<lparr>vocab := vocab_init\<rparr>;
          num_merges = vocab_size self1 - 256
      in train_loop 0 num_merges ids self1)"

subsection \<open>The rewrite as a recursion on the list\<close>

text \<open>
  The left-to-right scan written on the remaining input: two leading elements that form
  the pair are replaced by the new id and both are consumed; otherwise the first element
  is copied and one element is consumed.
\<close>

fun merge_rec :: "int \<times> int \<Rightarrow> int \<Rightarrow> int list \<Rightarrow> int list" where
  "merge_rec pair idx [] = []"
| "merge_rec pair idx [x] = [x]"
| "merge_rec pair idx (x # y # zs) =
     (if (x, y) = pair then idx # merge_rec pair idx zs else x # merge_rec pair idx (y # zs))"

subsection \<open>Expansion of a symbol sequence\<close>

text \<open>
  Modelled from the spec: \<^verbatim>\<open>idsToBytes\<close> of section 4.1 (the source has no decoding
  function). It concatenates the vocabulary entries of the ids in order and fails, here
  with \<open>None\<close>, when an id has no entry.
\<close>

fun expand :: "(int, string) dict \<Rightarrow> int list \<Rightarrow> string option" where
  "expand vc [] = Some []"
| "expand vc (x # xs) =
     (case dict_get vc x of
        None \<Rightarrow> None
      | Some b \<Rightarrow> (case expand vc xs of None \<Rightarrow> None | Some bs \<Rightarrow> Some (b @ bs)))"

text \<open>
  The state of \<^verbatim>\<open>train\<close> after at most \<open>k\<close> rounds of its loop: the loop run with
  the bound \<open>k\<close> from the initial state of \<^verbatim>\<open>train\<close>.
\<close>

definition train_upto :: "BPETokenizer \<Rightarrow> string \<Rightarrow> int \<Rightarrow> py_error + (int list \<times> BPETokenizer)" where
  "train_upto self text k = train_loop 0 k (map of_char text) (self\<lparr>vocab := vocab_init\<rparr>)"

text \<open>
  The loop invariant at the head of round \<open>i\<close>: the vocabulary has exactly the keys
  \<open>0, \<dots>, 255 + i\<close>, its base entries are the single bytes, and the sequence expands to
  the text.
\<close>

definition train_inv :: "string \<Rightarrow> int \<Rightarrow> int list \<Rightarrow> (int, string) dict \<Rightarrow> bool" where
  "train_inv text i ids vc \<longleftrightarrow>
     0 \<le> i \<and> fst ` set vc = {0..<256 + i}
     \<and> (\<forall>x. 0 \<le> x \<and> x < 256 \<longrightarrow> dict_get vc x = Some [char_of x])
     \<and> expand vc ids = Some text"

text \<open>
  The invariant of the merge table in a run that started with an empty table: at the head
  of round \<open>i\<close> it has \<open>i\<close> rules, no rule's pair occurs at adjacent positions of the
  sequence, and the ids of every pair are below \<open>256 + i\<close>.
\<close>

definition fresh_inv :: "int \<Rightarrow> int list \<Rightarrow> (int \<times> int, int) dict \<Rightarrow> bool" where
  "fresh_inv i ids ms \<longleftrightarrow>
     length ms = nat i
     \<and> (\<forall>e\<in>set ms. fst e \<notin> set (zip ids (drop 1 ids))
           \<and> fst (fst e) < 256 + i \<and> snd (fst e) < 256 + i)"

text \<open>
  The rule \<open>e\<close> was recorded in round \<open>i\<close> of the run of \<^verbatim>\<open>train\<close> on \<open>tx\<close>: after \<open>i\<close>
  rounds the loop selected the pair of \<open>e\<close>, both ids of the pair had entries in the
  vocabulary of that moment, and the id of \<open>e\<close> is \<open>256 + i\<close>.
\<close>

definition recorded_in_round :: "BPETokenizer \<Rightarrow> string \<Rightarrow> nat \<Rightarrow> (int \<times> int) \<times> int \<Rightarrow> bool" where
  "recorded_in_round self tx i e \<longleftrightarrow>
     (\<exists>ids_i self_i c. train_upto self tx (int i) = Inr (ids_i, self_i)
        \<and> select_pair (get_stats ids_i) = Some (fst e, c)
        \<and> dict_get (vocab self_i) (fst (fst e)) \<noteq> None
        \<and> dict_get (vocab self_i) (snd (fst e)) \<noteq> None
        \<and> snd e = 256 + int i)"

section \<open>The sequence rewriter\<close>

lemma merge_loop_drop:
  "i \<le> length ids \<Longrightarrow>
   merge_loop ids pair idx i newids = newids @ merge_rec pair idx (drop i ids)"
proof (induction ids pair idx i newids rule: merge_loop.induct)
  case (1 ids pair idx i newids)
  show ?case
  proof (cases "i < length ids")
    case False
    with "1.prems" have "drop i ids = []" by simp
    moreover from False have "merge_loop ids pair idx i newids = newids"
      by (subst merge_loop.simps) simp
    ultimately show ?thesis by simp
  next
    case lt: True
    show ?thesis
    proof (cases "i < length ids - 1")
      case False
      with lt have "Suc i = length ids" by simp
      with lt have d: "drop i ids = [ids ! i]"
        using Cons_nth_drop_Suc [OF lt] by simp
      from False lt
      have "merge_loop ids pair idx i newids = merge_loop ids pair idx (i + 1) (newids @ [ids ! i])"
        by (subst merge_loop.simps) simp
      also have "\<dots> = (newids @ [ids ! i]) @ merge_rec pair idx (drop (i + 1) ids)"
        using "1.IH"(2) lt False by simp
      finally show ?thesis using d False lt by simp
    next
      case True
      then have lt2: "Suc i < length ids" by simp
      have d1: "drop (i + 1) ids = ids ! (i + 1) # drop (i + 2) ids"
        using Cons_nth_drop_Suc [OF lt2] by simp
      have d: "drop i ids = ids ! i # ids ! (i + 1) # drop (i + 2) ids"
        using Cons_nth_drop_Suc [OF lt] d1 by simp
      show ?thesis
      proof (cases "(ids ! i, ids ! (i + 1)) = pair")
        case eq: True
        have "merge_loop ids pair idx i newids = merge_loop ids pair idx (i + 2) (newids @ [idx])"
          using lt True eq by (subst merge_loop.simps) simp
        also have "\<dots> = (newids @ [idx]) @ merge_rec pair idx (drop (i + 2) ids)"
          using "1.IH"(1) lt True eq by simp
        finally show ?thesis using d eq by simp
      next
        case ne: False
        have "merge_loop ids pair idx i newids = merge_loop ids pair idx (i + 1) (newids @ [ids ! i])"
          using lt True ne by (subst merge_loop.simps) simp
        also have "\<dots> = (newids @ [ids ! i]) @ merge_rec pair idx (drop (i + 1) ids)"
          using "1.IH"(2) lt True ne by simp
        finally show ?thesis using d d1 ne by simp
      qed
    qed
  qed
qed

lemma merge_eq_rec: "merge ids pair idx = merge_rec pair idx ids"
  by (simp add: merge_def merge_loop_drop)

text \<open>
  C4. One merge pass scans from the left: on the empty and the one-element sequence there
  is nothing to match; when the current and the next element form the pair, the new id is
  emitted and the scan continues two positions on; otherwise the current element is
  emitted and the scan continues one position on. Matches are therefore greedy and do not
  overlap: \<open>[97, 97, 97]\<close> with the pair \<open>(97, 97)\<close> becomes the two-element sequence
  \<open>[newId, 97]\<close>.
\<close>

theorem merge_scan:
  "merge [] pair idx = []
   \<and> merge [x] pair idx = [x]
   \<and> merge (x # y # zs) pair idx =
       (if (x, y) = pair then idx # merge zs pair idx else x # merge (y # zs) pair idx)
   \<and> merge [97, 97, 97] (97, 97) idx = [idx, 97]
   \<and> length (merge [97, 97, 97] (97, 97) idx) = 2
   \<and> merge [97, 97, 97] (97, 97) 256 \<noteq> [256, 256]"
  by (simp add: merge_eq_rec)

section \<open>Dictionaries and counting\<close>

lemma dict_get_dict_set:
  "dict_get (dict_set d k v) k' = (if k' = k then Some v else dict_get d k')"
  by (induction d) (auto simp: dict_get_def)

lemma keys_dict_set: "fst ` set (dict_set d k v) = insert k (fst ` set d)"
  by (induction d) auto

lemma distinct_dict_set:
  "distinct (map fst d) \<Longrightarrow> distinct (map fst (dict_set d k v))"
  by (induction d) (auto simp: keys_dict_set)

lemma dict_set_new: "k \<notin> fst ` set d \<Longrightarrow> dict_set d k v = d @ [(k, v)]"
  by (induction d) auto

lemma dict_get_None_iff: "dict_get d k = None \<longleftrightarrow> k \<notin> fst ` set d"
  by (simp add: dict_get_def map_of_eq_None_iff)

lemma dict_get_counter_add:
  "dict_get (counter_add c x) k = (if k = x then Some (counter_get c x + 1) else dict_get c k)"
  by (simp add: counter_add_def counter_get_def dict_get_dict_set)

lemma counter_get_counter_add:
  "counter_get (counter_add c x) k = (if k = x then counter_get c x + 1 else counter_get c k)"
  by (simp add: counter_get_def dict_get_counter_add)

lemma dict_get_foldl_counter_add:
  "dict_get (foldl counter_add c xs) k =
     (if k \<in> set xs then Some (counter_get c k + count_list xs k) else dict_get c k)"
proof (induction xs arbitrary: c)
  case Nil
  show ?case by simp
next
  case (Cons x xs)
  show ?case
    by (simp add: Cons.IH dict_get_counter_add counter_get_counter_add)
qed

lemma keys_foldl_counter_add:
  "fst ` set (foldl counter_add c xs) = fst ` set c \<union> set xs"
  by (induction xs arbitrary: c) (auto simp: counter_add_def keys_dict_set)

lemma distinct_foldl_counter_add:
  "distinct (map fst c) \<Longrightarrow> distinct (map fst (foldl counter_add c xs))"
  by (induction xs arbitrary: c) (auto simp: counter_add_def distinct_dict_set)

lemma counter_get_Counter: "counter_get (Counter xs) k = count_list xs k"
proof -
  have e: "dict_get [] k = None" "counter_get [] k = 0"
    by (simp_all add: counter_get_def dict_get_def)
  have "dict_get (Counter xs) k = (if k \<in> set xs then Some (count_list xs k) else None)"
    unfolding Counter_def dict_get_foldl_counter_add e by simp
  then show ?thesis
    by (simp add: counter_get_def)
qed

lemma keys_Counter: "fst ` set (Counter xs) = set xs"
  by (simp add: Counter_def keys_foldl_counter_add)

lemma distinct_Counter: "distinct (map fst (Counter xs))"
  by (simp add: Counter_def distinct_foldl_counter_add)

lemma keys_order_dict_set:
  "map fst (dict_set d k v) = (if k \<in> fst ` set d then map fst d else map fst d @ [k])"
  by (induction d) auto

lemma keys_order_Counter: "map fst (Counter xs) = rev (remdups (rev xs))"
proof (induction xs rule: rev_induct)
  case Nil
  show ?case by (simp add: Counter_def)
next
  case (snoc x xs)
  have "Counter (xs @ [x]) = counter_add (Counter xs) x"
    by (simp add: Counter_def)
  then have "map fst (Counter (xs @ [x])) =
      (if x \<in> set xs then map fst (Counter xs) else map fst (Counter xs) @ [x])"
    by (simp add: counter_add_def keys_order_dict_set keys_Counter)
  with snoc.IH show ?case by simp
qed

lemma Counter_empty_iff: "Counter xs = [] \<longleftrightarrow> xs = []"
proof
  assume "Counter xs = []"
  then have "fst ` set (Counter xs) = {}" by simp
  then show "xs = []" by (simp add: keys_Counter)
next
  assume "xs = []"
  then show "Counter xs = []" by (simp add: Counter_def)
qed

lemma count_list_adjacent:
  "count_list (zip ids (drop 1 ids)) (a, b) =
     card {i. Suc i < length ids \<and> ids ! i = a \<and> ids ! Suc i = b}"
proof -
  have "count_list (zip ids (drop 1 ids)) (a, b) =
        card {i. i < length (zip ids (drop 1 ids)) \<and> (a, b) = zip ids (drop 1 ids) ! i}"
    by (simp add: count_list_eq_length_filter length_filter_conv_card)
  also have "{i. i < length (zip ids (drop 1 ids)) \<and> (a, b) = zip ids (drop 1 ids) ! i} =
             {i. Suc i < length ids \<and> ids ! i = a \<and> ids ! Suc i = b}"
    by (rule Collect_cong) auto
  finally show ?thesis .
qed

lemma set_adjacent:
  "(a, b) \<in> set (zip ids (drop 1 ids)) \<longleftrightarrow>
     (\<exists>i. Suc i < length ids \<and> ids ! i = a \<and> ids ! Suc i = b)"
proof -
  have "(n < length ids \<and> n < length (drop 1 ids) \<and> ids ! n = a \<and> drop 1 ids ! n = b)
        \<longleftrightarrow> (Suc n < length ids \<and> ids ! n = a \<and> ids ! Suc n = b)" for n
    by (cases ids) auto
  then show ?thesis
    unfolding in_set_zip by auto
qed

lemma get_stats_short: "length ids < 2 \<Longrightarrow> get_stats ids = []"
proof -
  assume "length ids < 2"
  then have "zip ids (drop 1 ids) = []"
    by (cases ids) auto
  then have "get_stats ids = Counter []"
    unfolding get_stats_def by (rule arg_cong)
  then show ?thesis
    by (simp add: Counter_def)
qed

section \<open>The pair frequency counter\<close>

text \<open>
  C9. The pair count of a sequence gives, for every pair \<open>(a, b)\<close>, the number of
  positions \<open>i\<close> with \<open>ids ! i = a\<close> and \<open>ids ! (i + 1) = b\<close> (reading a \<^verbatim>\<open>Counter\<close> at
  an absent pair gives 0). Its keys are exactly the pairs that occur at two adjacent
  positions, each key once, so no counted pair spans a gap; a sequence shorter than 2 has
  the empty mapping.
\<close>

theorem get_stats_counts:
  "counter_get (get_stats ids) (a, b) =
     card {i. Suc i < length ids \<and> ids ! i = a \<and> ids ! Suc i = b}
   \<and> ((a, b) \<in> fst ` set (get_stats ids) \<longleftrightarrow>
        (\<exists>i. Suc i < length ids \<and> ids ! i = a \<and> ids ! Suc i = b))
   \<and> distinct (map fst (get_stats ids))
   \<and> (length ids < 2 \<longrightarrow> get_stats ids = [])"
proof (intro conjI impI)
  show "counter_get (get_stats ids) (a, b) =
     card {i. Suc i < length ids \<and> ids ! i = a \<and> ids ! Suc i = b}"
    unfolding get_stats_def counter_get_Counter by (rule count_list_adjacent)
  show "(a, b) \<in> fst ` set (get_stats ids) \<longleftrightarrow>
        (\<exists>i. Suc i < length ids \<and> ids ! i = a \<and> ids ! Suc i = b)"
    unfolding get_stats_def keys_Counter by (rule set_adjacent)
  show "distinct (map fst (get_stats ids))"
    unfolding get_stats_def by (rule distinct_Counter)
  show "get_stats ids = []" if "length ids < 2"
    using that by (rule get_stats_short)
qed

theorem get_stats_counts_witness:
  "length [97::int] < 2 \<and> get_stats [97] = []
   \<and> counter_get (get_stats [97]) (97, 97) = 0"
  using get_stats_counts [of "[97]" 97 97] by (simp add: counter_get_def dict_get_def)

section \<open>The merge selector\<close>

lemma py_max_key_first:
  "(py_max_key f b xs = b \<and> (\<forall>x\<in>set xs. f x \<le> f b))
   \<or> (\<exists>ps qs. xs = ps @ py_max_key f b xs # qs \<and> f b < f (py_max_key f b xs)
        \<and> (\<forall>x\<in>set ps. f x < f (py_max_key f b xs))
        \<and> (\<forall>x\<in>set qs. f x \<le> f (py_max_key f b xs)))"
proof (induction xs arbitrary: b)
  case Nil
  show ?case by simp
next
  case (Cons x xs)
  let ?b' = "if f b < f x then x else b"
  let ?r = "py_max_key f ?b' xs"
  have r: "py_max_key f b (x # xs) = ?r" by simp
  from Cons.IH [of ?b'] consider
      (keep) "?r = ?b'" "\<forall>y\<in>set xs. f y \<le> f ?b'"
    | (later) ps qs where "xs = ps @ ?r # qs" "f ?b' < f ?r"
        "\<forall>y\<in>set ps. f y < f ?r" "\<forall>y\<in>set qs. f y \<le> f ?r"
    by blast
  then show ?case
  proof cases
    case keep
    show ?thesis
    proof (cases "f b < f x")
      case True
      with keep have "x # xs = [] @ ?r # xs" "f b < f ?r" "\<forall>y\<in>set xs. f y \<le> f ?r"
        by simp_all
      then show ?thesis unfolding r by (intro disjI2 exI [of _ "[]"] exI [of _ xs]) simp
    next
      case False
      with keep show ?thesis unfolding r by (intro disjI1) auto
    qed
  next
    case later
    have "x # xs = (x # ps) @ ?r # qs" using later(1) by simp
    moreover have "f b < f ?r" using later(2) by (auto split: if_splits)
    moreover have "\<forall>y\<in>set (x # ps). f y < f ?r" using later(2,3) by (auto split: if_splits)
    ultimately show ?thesis unfolding r using later(4)
      by (intro disjI2 exI [of _ "x # ps"] exI [of _ qs]) simp
  qed
qed

lemma select_pair_first_max:
  assumes "stats \<noteq> []"
  shows "\<exists>ps p c qs. select_pair stats = Some (p, c) \<and> stats = ps @ (p, c) # qs
           \<and> (\<forall>x\<in>set ps. snd x < c) \<and> (\<forall>x\<in>set qs. snd x \<le> c)"
proof -
  from assms obtain b xs where s: "stats = b # xs" by (cases stats) auto
  let ?r = "py_max_key snd b xs"
  have sel: "select_pair stats = Some (fst ?r, snd ?r)" by (simp add: s select_pair_def)
  from py_max_key_first [of snd b xs] show ?thesis
  proof
    assume "?r = b \<and> (\<forall>x\<in>set xs. snd x \<le> snd b)"
    then have "stats = [] @ (fst ?r, snd ?r) # xs" "\<forall>x\<in>set xs. snd x \<le> snd ?r"
      by (simp_all add: s)
    with sel show ?thesis by (intro exI [of _ "[]"] exI [of _ xs] exI [of _ "fst ?r"] exI [of _ "snd ?r"]) simp
  next
    assume "\<exists>ps qs. xs = ps @ ?r # qs \<and> snd b < snd ?r
        \<and> (\<forall>x\<in>set ps. snd x < snd ?r) \<and> (\<forall>x\<in>set qs. snd x \<le> snd ?r)"
    then obtain ps qs where "xs = ps @ ?r # qs" "snd b < snd ?r"
        "\<forall>x\<in>set ps. snd x < snd ?r" "\<forall>x\<in>set qs. snd x \<le> snd ?r" by blast
    then have "stats = (b # ps) @ (fst ?r, snd ?r) # qs" "\<forall>x\<in>set (b # ps). snd x < snd ?r"
        "\<forall>x\<in>set qs. snd x \<le> snd ?r"
      by (simp_all add: s)
    with sel show ?thesis
      by (intro exI [of _ "b # ps"] exI [of _ qs] exI [of _ "fst ?r"] exI [of _ "snd ?r"]) simp
  qed
qed

lemma train_loop_break:
  "get_stats ids = [] \<Longrightarrow> train_loop i n ids self = Inr (ids, self)"
  by (subst train_loop.simps) (simp add: select_pair_def)

lemma get_stats_bab: "get_stats [98, 97, 98] = [((98, 97), 1), ((97, 98), 1)]"
  by (simp add: get_stats_def Counter_def counter_add_def dict_get_def)

text \<open>
  C1, as the claim states it, fails: on the text \<^verbatim>\<open>"bab"\<close> the pairs \<open>(98, 97)\<close> and
  \<open>(97, 98)\<close> both have count 1, and the selection returns \<open>(98, 97)\<close>, the pair seen
  first, although \<open>(97, 98)\<close> is the smaller one in the lexicographic order.
\<close>

theorem select_pair_lexicographic_counterexample:
  "get_stats (map of_char ''bab'') = [((98, 97), 1), ((97, 98), 1)]
   \<and> select_pair (get_stats (map of_char ''bab'')) = Some ((98, 97), 1)
   \<and> (97::int) < 98"
  by (simp add: get_stats_bab select_pair_def)

text \<open>
  C1, amended. For the empty mapping no pair is selected, and the training loop stops
  with its state unchanged. For a non-empty mapping the selected entry has the maximum
  count and is the first such entry in the iteration order of the mapping: every entry
  before it has a strictly smaller count, every entry after it a count that is not
  greater. The iteration order of the pair counts of a sequence is the order in which the
  pairs first occur in the sequence, so among the pairs with the maximum count the one
  that occurs first is selected.
\<close>

theorem select_pair_first_maximum:
  "select_pair [] = None
   \<and> (get_stats ids = [] \<longrightarrow> train_loop i n ids self = Inr (ids, self))
   \<and> (stats \<noteq> [] \<longrightarrow>
        (\<exists>ps p c qs. select_pair stats = Some (p, c) \<and> stats = ps @ (p, c) # qs
           \<and> (\<forall>x\<in>set ps. snd x < c) \<and> (\<forall>x\<in>set qs. snd x \<le> c)))
   \<and> map fst (get_stats ids) = rev (remdups (rev (zip ids (drop 1 ids))))"
  using select_pair_first_max [of stats] train_loop_break [of ids i n self]
    keys_order_Counter [of "zip ids (drop 1 ids)"]
  unfolding get_stats_def by (simp add: select_pair_def)

theorem select_pair_first_maximum_witness:
  "get_stats [97] = []
   \<and> train_loop 0 1 [97] (BPETokenizer_init 257) = Inr ([97], BPETokenizer_init 257)
   \<and> get_stats [98, 97, 98] \<noteq> []
   \<and> (\<exists>ps p c qs. select_pair (get_stats [98, 97, 98]) = Some (p, c)
         \<and> get_stats [98, 97, 98] = ps @ (p, c) # qs
         \<and> (\<forall>x\<in>set ps. snd x < c) \<and> (\<forall>x\<in>set qs. snd x \<le> c))
   \<and> map fst (get_stats [97]) = rev (remdups (rev (zip [97] (drop 1 [97]))))"
  using select_pair_first_maximum
    [where ids = "[97]" and i = 0 and n = 1 and self = "BPETokenizer_init 257"
       and stats = "get_stats [98, 97, 98]"]
    get_stats_short [of "[97]"]
  by (simp add: get_stats_bab)

section \<open>Construction\<close>

text \<open>
  C3, as the claim states it, fails: constructing a tokenizer with size 100 raises no
  error and yields a tokenizer.
\<close>

theorem construct_below_256_counterexample:
  "(100::int) < 256
   \<and> BPETokenizer_new 100 = Inr \<lparr>vocab_size = 100, merges = [], vocab = []\<rparr>"
  by (simp add: BPETokenizer_new_def BPETokenizer_init_def)

lemma train_no_merges:
  "vocab_size self \<le> 256 \<Longrightarrow>
   train self text = Inr (map of_char text, self\<lparr>vocab := vocab_init\<rparr>)"
  unfolding train_def Let_def by (subst train_loop.simps) simp

text \<open>
  C3, amended. For every size, also one below 256, the constructor raises no error and
  yields a tokenizer with that size, an empty vocabulary and an empty merge table. The
  size is not checked later either: training a tokenizer whose size is at most 256 makes
  no merge, returns the byte ids of the text, and leaves the merge table empty and the
  vocabulary at the base entries.
\<close>

theorem construct_unchecked:
  "BPETokenizer_new vs = Inr \<lparr>vocab_size = vs, merges = [], vocab = []\<rparr>
   \<and> (vs \<le> 256 \<longrightarrow>
        train (BPETokenizer_init vs) text =
          Inr (map of_char text, \<lparr>vocab_size = vs, merges = [], vocab = vocab_init\<rparr>))"
  using train_no_merges [of "BPETokenizer_init vs" "text"]
  by (simp add: BPETokenizer_new_def BPETokenizer_init_def)

theorem construct_unchecked_witness:
  "(100::int) \<le> 256
   \<and> BPETokenizer_new 100 = Inr \<lparr>vocab_size = 100, merges = [], vocab = []\<rparr>
   \<and> train (BPETokenizer_init 100) ''ab'' =
        Inr ([97, 98], \<lparr>vocab_size = 100, merges = [], vocab = vocab_init\<rparr>)"
  using construct_unchecked [of 100 "''ab''"] by simp

section \<open>The vocabulary and the expansion of a sequence\<close>

lemma dict_get_Some_key: "dict_get d k = Some v \<Longrightarrow> k \<in> fst ` set d"
  using dict_get_None_iff [of d k] by auto

lemma expand_keys: "expand vc ids = Some t \<Longrightarrow> set ids \<subseteq> fst ` set vc"
  by (induction ids arbitrary: t)
     (auto dest: dict_get_Some_key split: option.splits)

lemma expand_dict_set_new:
  "dict_get vc idx = None \<Longrightarrow> expand vc ids = Some t \<Longrightarrow>
   expand (dict_set vc idx v) ids = Some t"
  by (induction ids arbitrary: t) (auto simp: dict_get_dict_set split: option.splits)

lemma expand_merge_rec:
  "dict_get vc (fst pair) = Some a \<Longrightarrow> dict_get vc (snd pair) = Some b \<Longrightarrow>
   dict_get vc idx = None \<Longrightarrow> expand vc ids = Some t \<Longrightarrow>
   expand (dict_set vc idx (a @ b)) (merge_rec pair idx ids) = Some t"
proof (induction pair idx ids arbitrary: t rule: merge_rec.induct)
  case (3 pair idx x y zs)
  from "3.prems"(4) obtain bx by' bz where
    x: "dict_get vc x = Some bx" and y: "dict_get vc y = Some by'"
    and z: "expand vc zs = Some bz" and t: "t = bx @ by' @ bz"
    by (auto split: option.splits)
  show ?case
  proof (cases "(x, y) = pair")
    case True
    with x y "3.prems"(1,2) have "bx = a" "by' = b" by auto
    moreover have "expand (dict_set vc idx (a @ b)) (merge_rec pair idx zs) = Some bz"
      using "3.IH"(1) [OF True "3.prems"(1,2,3) z] .
    ultimately show ?thesis using True t by (simp add: dict_get_dict_set)
  next
    case False
    have "expand vc (y # zs) = Some (by' @ bz)" using y z by simp
    then have "expand (dict_set vc idx (a @ b)) (merge_rec pair idx (y # zs)) = Some (by' @ bz)"
      using "3.IH"(2) [OF False "3.prems"(1,2,3)] by simp
    moreover have "x \<noteq> idx" using x "3.prems"(3) by auto
    ultimately show ?thesis using False t x by (simp add: dict_get_dict_set)
  qed
next
  case (1 pair idx)
  then show ?case by simp
next
  case (2 pair idx v)
  then show ?case by (auto simp: dict_get_dict_set split: option.splits)
qed

lemma dict_get_map_keys:
  "dict_get (map (\<lambda>i. (i, f i)) xs) x = (if x \<in> set xs then Some (f x) else None)"
  by (induction xs) (auto simp: dict_get_def)

lemma dict_get_vocab_init:
  "dict_get vocab_init x = (if 0 \<le> x \<and> x < 256 then Some [char_of x] else None)"
  unfolding vocab_init_def dict_get_map_keys by auto

lemma keys_vocab_init: "fst ` set vocab_init = {0..<256}"
  unfolding vocab_init_def by (auto simp: image_iff)

lemma length_vocab_init: "length vocab_init = 256"
  unfolding vocab_init_def by simp

lemma of_char_int_range: "0 \<le> (of_char c :: int) \<and> (of_char c :: int) < 256"
proof -
  have "(of_char c :: int) = int (of_char c)" by (simp add: of_nat_of_char)
  moreover have "(of_char c :: nat) < 256" by simp
  ultimately show ?thesis by linarith
qed

lemma expand_vocab_init: "expand vocab_init (map of_char tx) = Some tx"
  by (induction tx) (simp_all add: dict_get_vocab_init of_char_int_range)

lemma train_inv_init: "train_inv tx 0 (map of_char tx) vocab_init"
  by (simp add: train_inv_def keys_vocab_init dict_get_vocab_init expand_vocab_init)

section \<open>The training loop\<close>

lemma select_pair_None_iff: "select_pair stats = None \<longleftrightarrow> stats = []"
  by (cases stats) (simp_all add: select_pair_def)

lemma select_pair_key: "select_pair stats = Some (p, c) \<Longrightarrow> p \<in> fst ` set stats"
proof -
  assume sel: "select_pair stats = Some (p, c)"
  then have "stats \<noteq> []" by (auto simp: select_pair_def)
  from select_pair_first_max [OF this] sel have "(p, c) \<in> set stats" by auto
  then show ?thesis by force
qed

lemma select_pair_adjacent:
  "select_pair (get_stats ids) = Some (p, c) \<Longrightarrow> p \<in> set (zip ids (drop 1 ids))"
  using select_pair_key [of "get_stats ids" p c] unfolding get_stats_def keys_Counter .

lemma adjacent_members:
  "p \<in> set (zip ids (drop 1 ids)) \<Longrightarrow> fst p \<in> set ids \<and> snd p \<in> set ids"
  by (cases p) (auto dest: set_zip_leftD set_zip_rightD in_set_dropD)

lemma train_body_step:
  assumes inv: "train_inv tx i ids (vocab self)"
    and sel: "select_pair (get_stats ids) = Some (p, c)"
  shows "\<exists>a b. dict_get (vocab self) (fst p) = Some a \<and> dict_get (vocab self) (snd p) = Some b
     \<and> train_body i ids self p =
         Inr (merge ids p (256 + i),
              self\<lparr>merges := dict_set (merges self) p (256 + i),
                   vocab := dict_set (vocab self) (256 + i) (a @ b)\<rparr>)
     \<and> train_inv tx (i + 1) (merge ids p (256 + i)) (dict_set (vocab self) (256 + i) (a @ b))"
proof -
  from inv have i0: "0 \<le> i" and keys: "fst ` set (vocab self) = {0..<256 + i}"
    and base: "\<And>x. 0 \<le> x \<Longrightarrow> x < 256 \<Longrightarrow> dict_get (vocab self) x = Some [char_of x]"
    and ex: "expand (vocab self) ids = Some tx"
    by (simp_all add: train_inv_def)
  from expand_keys [OF ex] have sub: "set ids \<subseteq> fst ` set (vocab self)" .
  from select_pair_adjacent [OF sel] adjacent_members
  have "fst p \<in> set ids" "snd p \<in> set ids" by blast+
  with sub have "fst p \<in> fst ` set (vocab self)" "snd p \<in> fst ` set (vocab self)" by blast+
  then obtain a b where a: "dict_get (vocab self) (fst p) = Some a"
    and b: "dict_get (vocab self) (snd p) = Some b"
    using dict_get_None_iff [of "vocab self"] by fastforce
  have new: "dict_get (vocab self) (256 + i) = None"
    using keys by (simp add: dict_get_None_iff)
  have body: "train_body i ids self p =
         Inr (merge ids p (256 + i),
              self\<lparr>merges := dict_set (merges self) p (256 + i),
                   vocab := dict_set (vocab self) (256 + i) (a @ b)\<rparr>)"
    using a b by (simp add: train_body_def dict_lookup_def Let_def)
  have "expand (dict_set (vocab self) (256 + i) (a @ b)) (merge ids p (256 + i)) = Some tx"
    unfolding merge_eq_rec using expand_merge_rec [OF a b new ex] .
  moreover have "fst ` set (dict_set (vocab self) (256 + i) (a @ b)) = {0..<256 + (i + 1)}"
    unfolding keys_dict_set keys using i0 by auto
  moreover have "dict_get (dict_set (vocab self) (256 + i) (a @ b)) x = Some [char_of x]"
    if "0 \<le> x" "x < 256" for x
    using that i0 base [of x] by (simp add: dict_get_dict_set)
  ultimately have "train_inv tx (i + 1) (merge ids p (256 + i))
      (dict_set (vocab self) (256 + i) (a @ b))"
    using i0 by (simp add: train_inv_def)
  with a b body show ?thesis by blast
qed

lemma train_loop_unfold:
  assumes "i < n" "select_pair (get_stats ids) = Some (p, c)"
    "train_body i ids self p = Inr (ids1, self1)"
  shows "train_loop i n ids self = train_loop (i + 1) n ids1 self1"
  using assms by (subst train_loop.simps) simp

lemma train_loop_done:
  "\<not> i < n \<or> get_stats ids = [] \<Longrightarrow> train_loop i n ids self = Inr (ids, self)"
  by (subst train_loop.simps) (auto simp: select_pair_def)

lemma train_loop_inv:
  "train_inv tx i ids (vocab self) \<Longrightarrow>
   \<exists>ids' self' j. train_loop i n ids self = Inr (ids', self')
     \<and> train_inv tx j ids' (vocab self') \<and> i \<le> j \<and> (j \<le> n \<or> j = i)
     \<and> (n \<le> j \<or> get_stats ids' = [])
     \<and> vocab_size self' = vocab_size self
     \<and> (\<forall>x v. dict_get (vocab self) x = Some v \<longrightarrow> dict_get (vocab self') x = Some v)"
proof (induction i n ids self rule: train_loop.induct)
  case (1 i n ids self)
  show ?case
  proof (cases "i < n \<and> get_stats ids \<noteq> []")
    case False
    then have "train_loop i n ids self = Inr (ids, self)"
      by (intro train_loop_done) auto
    with False "1.prems" show ?thesis
      by (intro exI [of _ ids] exI [of _ self] exI [of _ i]) auto
  next
    case True
    then obtain p c where sel: "select_pair (get_stats ids) = Some (p, c)"
      using select_pair_None_iff [of "get_stats ids"] by (cases "select_pair (get_stats ids)") auto
    from train_body_step [OF "1.prems" sel] obtain a b where
      a: "dict_get (vocab self) (fst p) = Some a" and b: "dict_get (vocab self) (snd p) = Some b"
      and body: "train_body i ids self p =
         Inr (merge ids p (256 + i),
              self\<lparr>merges := dict_set (merges self) p (256 + i),
                   vocab := dict_set (vocab self) (256 + i) (a @ b)\<rparr>)"
      and inv': "train_inv tx (i + 1) (merge ids p (256 + i))
          (dict_set (vocab self) (256 + i) (a @ b))"
      by blast
    let ?ids1 = "merge ids p (256 + i)"
    let ?self1 = "self\<lparr>merges := dict_set (merges self) p (256 + i),
                   vocab := dict_set (vocab self) (256 + i) (a @ b)\<rparr>"
    from True have lt: "i < n" by simp
    have unf: "train_loop i n ids self = train_loop (i + 1) n ?ids1 ?self1"
      using train_loop_unfold [OF lt sel body] .
    have "train_inv tx (i + 1) (fst (?ids1, ?self1)) (vocab (snd (?ids1, ?self1)))"
      using inv' by simp
    from "1.IH" [OF lt sel _ this] body obtain ids' self' j where
      r: "train_loop (i + 1) n ?ids1 ?self1 = Inr (ids', self')"
      and inv'': "train_inv tx j ids' (vocab self')" and j: "i + 1 \<le> j" "j \<le> n \<or> j = i + 1"
      "n \<le> j \<or> get_stats ids' = []"
      and vs: "vocab_size self' = vocab_size ?self1"
      and mono: "\<forall>x v. dict_get (vocab ?self1) x = Some v \<longrightarrow> dict_get (vocab self') x = Some v"
      by auto
    have new: "dict_get (vocab self) (256 + i) = None"
      using "1.prems" by (simp add: train_inv_def dict_get_None_iff)
    have "dict_get (vocab self') x = Some v" if "dict_get (vocab self) x = Some v" for x v
    proof -
      from that new have "x \<noteq> 256 + i" by auto
      with that have "dict_get (vocab ?self1) x = Some v" by (simp add: dict_get_dict_set)
      with mono show ?thesis by blast
    qed
    with r unf inv'' j vs lt show ?thesis
      by (intro exI [of _ ids'] exI [of _ self'] exI [of _ j]) auto
  qed
qed

section \<open>Properties of a training run\<close>

lemma train_loop_split:
  "i \<le> k \<Longrightarrow> k \<le> n \<Longrightarrow> train_loop i k ids self = Inr (ids_k, self_k) \<Longrightarrow>
   train_loop i n ids self = train_loop k n ids_k self_k"
proof (induction i k ids self rule: train_loop.induct)
  case (1 i k ids self)
  show ?case
  proof (cases "i < k \<and> get_stats ids \<noteq> []")
    case False
    then have "train_loop i k ids self = Inr (ids, self)"
      by (intro train_loop_done) auto
    with "1.prems"(3) have eq: "ids_k = ids" "self_k = self" by simp_all
    show ?thesis
    proof (cases "i < k")
      case True
      with False have e: "get_stats ids = []" by simp
      then have "train_loop i n ids self = Inr (ids, self)"
        "train_loop k n ids self = Inr (ids, self)"
        by (simp_all add: train_loop_done)
      with eq show ?thesis by simp
    next
      case False
      with "1.prems"(1) have "i = k" by simp
      with eq show ?thesis by simp
    qed
  next
    case True
    then have lt: "i < k" by simp
    from True obtain p c where sel: "select_pair (get_stats ids) = Some (p, c)"
      using select_pair_None_iff [of "get_stats ids"] by (cases "select_pair (get_stats ids)") auto
    show ?thesis
    proof (cases "train_body i ids self p")
      case (Inl e)
      with lt sel have "train_loop i k ids self = Inl e"
        by (subst train_loop.simps) simp
      with "1.prems"(3) show ?thesis by simp
    next
      case (Inr s)
      then have body: "train_body i ids self p = Inr (fst s, snd s)" by simp
      from lt "1.prems"(2) have ltn: "i < n" by simp
      have "train_loop i k ids self = train_loop (i + 1) k (fst s) (snd s)"
        using train_loop_unfold [OF lt sel body] .
      with "1.prems"(3) have r: "train_loop (i + 1) k (fst s) (snd s) = Inr (ids_k, self_k)"
        by simp
      have "train_loop (i + 1) n (fst s) (snd s) = train_loop k n ids_k self_k"
        using "1.IH" [OF lt sel _ _ "1.prems"(2) r] Inr lt by simp
      then show ?thesis
        using train_loop_unfold [OF ltn sel body] by simp
    qed
  qed
qed

lemma train_prefix:
  assumes inv: "train_inv tx 0 ids0 (vocab self0)" and k: "0 \<le> k" "k \<le> n"
  shows "\<exists>ids_k self_k j. train_loop 0 k ids0 self0 = Inr (ids_k, self_k)
     \<and> train_inv tx j ids_k (vocab self_k) \<and> 0 \<le> j \<and> j \<le> k
     \<and> (j = k \<or> get_stats ids_k = [])
     \<and> vocab_size self_k = vocab_size self0
     \<and> train_loop 0 n ids0 self0 = train_loop k n ids_k self_k"
proof -
  from train_loop_inv [OF inv, of k] obtain ids_k self_k j where
    r: "train_loop 0 k ids0 self0 = Inr (ids_k, self_k)"
    and i: "train_inv tx j ids_k (vocab self_k)" and j: "0 \<le> j" "j \<le> k \<or> j = 0"
      "k \<le> j \<or> get_stats ids_k = []"
    and vs: "vocab_size self_k = vocab_size self0"
    by blast
  from train_loop_split [OF k r] have "train_loop 0 n ids0 self0 = train_loop k n ids_k self_k" .
  with r i j k vs show ?thesis
    by (intro exI [of _ ids_k] exI [of _ self_k] exI [of _ j]) auto
qed

lemma expand_total: "set ids \<subseteq> fst ` set vc \<Longrightarrow> \<exists>t. expand vc ids = Some t"
proof (induction ids)
  case Nil
  show ?case by simp
next
  case (Cons x xs)
  then obtain t where t: "expand vc xs = Some t" by auto
  from Cons.prems have "dict_get vc x \<noteq> None" by (simp add: dict_get_None_iff)
  with t show ?case by auto
qed

lemma train_init_inv: "train_inv tx 0 (map of_char tx) (vocab (self\<lparr>vocab := vocab_init\<rparr>))"
  by (simp add: train_inv_init)

text \<open>
  C8. Training on the empty text raises no error: it returns the empty sequence, records
  no merge rule (the merge table is left as it was, so it is empty for a tokenizer that
  was just constructed), and the vocabulary is exactly the 256 base entries, one single
  byte for each id from 0 to 255.
\<close>

theorem train_empty_corpus:
  "train self [] = Inr ([], self\<lparr>vocab := vocab_init\<rparr>)
   \<and> merges (self\<lparr>vocab := vocab_init\<rparr>) = merges self
   \<and> length vocab_init = 256
   \<and> distinct (map fst vocab_init)
   \<and> dict_get vocab_init x = (if 0 \<le> x \<and> x < 256 then Some [char_of x] else None)
   \<and> train (BPETokenizer_init vs) [] =
        Inr ([], \<lparr>vocab_size = vs, merges = [], vocab = vocab_init\<rparr>)"
proof -
  have "get_stats [] = []" by (simp add: get_stats_short)
  then have r: "train s [] = Inr ([], s\<lparr>vocab := vocab_init\<rparr>)" for s
    unfolding train_def Let_def by (simp add: train_loop_done)
  have "distinct (map fst vocab_init)"
    unfolding vocab_init_def by (simp add: comp_def)
  with r [of self] r [of "BPETokenizer_init vs"] show ?thesis
    by (simp add: length_vocab_init dict_get_vocab_init BPETokenizer_init_def)
qed

text \<open>
  C10. A merge pass preserves the expansion: when all ids of the sequence and both ids of
  the pair \<open>(l, r)\<close> have vocabulary entries and \<open>idx\<close> is a new id, then after storing
  \<open>vocabulary[l] @ vocabulary[r]\<close> under \<open>idx\<close> the merged sequence expands to the same
  bytes as the original one. Consequently the sequence of \<^verbatim>\<open>train\<close> expands to the
  bytes of the text throughout: after every number \<open>k\<close> of rounds of the loop (the run
  continues from that state to the end), and at the end.
\<close>

theorem merge_preserves_expansion:
  "(set ids \<subseteq> fst ` set vc \<and> dict_get vc l = Some a \<and> dict_get vc r = Some b
      \<and> idx \<notin> fst ` set vc \<longrightarrow>
      expand vc ids \<noteq> None
      \<and> expand (dict_set vc idx (a @ b)) (merge ids (l, r) idx) = expand vc ids)
   \<and> (0 \<le> k \<and> k \<le> vocab_size self - 256 \<longrightarrow>
        (\<exists>ids_k self_k. train_upto self tx k = Inr (ids_k, self_k)
           \<and> train self tx = train_loop k (vocab_size self - 256) ids_k self_k
           \<and> expand (vocab self_k) ids_k = Some tx))
   \<and> (\<exists>ids' self'. train self tx = Inr (ids', self') \<and> expand (vocab self') ids' = Some tx)"
proof (intro conjI impI)
  assume h: "set ids \<subseteq> fst ` set vc \<and> dict_get vc l = Some a \<and> dict_get vc r = Some b
      \<and> idx \<notin> fst ` set vc"
  then obtain t where t: "expand vc ids = Some t" using expand_total by blast
  from h have new: "dict_get vc idx = None" by (simp add: dict_get_None_iff)
  have "expand (dict_set vc idx (a @ b)) (merge_rec (l, r) idx ids) = Some t"
    using expand_merge_rec [of vc "(l, r)" a b idx ids t] h new t by simp
  with t show "expand vc ids \<noteq> None"
    and "expand (dict_set vc idx (a @ b)) (merge ids (l, r) idx) = expand vc ids"
    by (simp_all add: merge_eq_rec)
next
  assume k: "0 \<le> k \<and> k \<le> vocab_size self - 256"
  from train_prefix [where k = k and n = "vocab_size self - 256" and tx = tx
      and ?self0.0 = "self\<lparr>vocab := vocab_init\<rparr>", OF train_init_inv] k
  show "\<exists>ids_k self_k. train_upto self tx k = Inr (ids_k, self_k)
           \<and> train self tx = train_loop k (vocab_size self - 256) ids_k self_k
           \<and> expand (vocab self_k) ids_k = Some tx"
    unfolding train_upto_def train_def Let_def train_inv_def by fastforce
next
  from train_loop_inv [where n = "vocab_size self - 256" and tx = tx
      and self = "self\<lparr>vocab := vocab_init\<rparr>", OF train_init_inv]
  show "\<exists>ids' self'. train self tx = Inr (ids', self') \<and> expand (vocab self') ids' = Some tx"
    unfolding train_def Let_def train_inv_def by fastforce
qed

lemma dict_get_Nil: "dict_get [] k = None"
  by (simp add: dict_get_def)

lemma dict_get_Cons: "dict_get ((k', v) # d) k = (if k = k' then Some v else dict_get d k)"
  by (simp add: dict_get_def)

theorem merge_preserves_expansion_witness:
  "set [1, 2, 1] \<subseteq> fst ` set [(1::int, ''a''), (2, ''b'')]
   \<and> dict_get [(1::int, ''a''), (2, ''b'')] 1 = Some ''a''
   \<and> dict_get [(1::int, ''a''), (2, ''b'')] 2 = Some ''b''
   \<and> 3 \<notin> fst ` set [(1::int, ''a''), (2, ''b'')]
   \<and> merge [1, 2, 1] (1, 2) 3 = [3, 1]
   \<and> expand (dict_set [(1, ''a''), (2, ''b'')] 3 (''a'' @ ''b'')) (merge [1, 2, 1] (1, 2) 3)
       = Some ''aba''
   \<and> (0::int) \<le> 0 \<and> 0 \<le> vocab_size (BPETokenizer_init 257) - 256
   \<and> (\<exists>ids' self'. train (BPETokenizer_init 257) ''aa'' = Inr (ids', self')
         \<and> expand (vocab self') ids' = Some ''aa'')"
  using merge_preserves_expansion
    [where ids = "[1, 2, 1]" and vc = "[(1, ''a''), (2, ''b'')]" and l = 1 and r = 2
       and a = "''a''" and b = "''b''" and idx = 3 and k = 0
       and self = "BPETokenizer_init 257" and tx = "''aa''"]
  by (simp add: dict_get_Nil dict_get_Cons merge_eq_rec BPETokenizer_init_def)

lemma train_inv_index:
  "train_inv tx j ids vc \<Longrightarrow> train_inv tx j' ids' vc \<Longrightarrow> j = j'"
proof -
  assume a: "train_inv tx j ids vc" and b: "train_inv tx j' ids' vc"
  then have "{0..<256 + j} = {0..<256 + j'}" "0 \<le> j" "0 \<le> j'"
    by (simp_all add: train_inv_def)
  then show ?thesis
    by (simp add: atLeastLessThan_eq_iff)
qed

lemma train_round:
  assumes inv: "train_inv tx k ids (vocab self)" and lt: "k < n"
    and sel: "select_pair (get_stats ids) = Some (p, c)"
    and fin: "train_loop k n ids self = Inr (ids', self')"
  shows "\<exists>a b. dict_get (vocab self') (fst p) = Some a \<and> dict_get (vocab self') (snd p) = Some b
     \<and> dict_get (vocab self') (256 + k) = Some (a @ b)
     \<and> train_loop k (k + 1) ids self = train_body k ids self p"
proof -
  from train_body_step [OF inv sel] obtain a b where
    a: "dict_get (vocab self) (fst p) = Some a" and b: "dict_get (vocab self) (snd p) = Some b"
    and body: "train_body k ids self p =
       Inr (merge ids p (256 + k),
            self\<lparr>merges := dict_set (merges self) p (256 + k),
                 vocab := dict_set (vocab self) (256 + k) (a @ b)\<rparr>)"
    and inv': "train_inv tx (k + 1) (merge ids p (256 + k))
        (dict_set (vocab self) (256 + k) (a @ b))"
    by blast
  let ?ids1 = "merge ids p (256 + k)"
  let ?self1 = "self\<lparr>merges := dict_set (merges self) p (256 + k),
                 vocab := dict_set (vocab self) (256 + k) (a @ b)\<rparr>"
  have inv1: "train_inv tx (k + 1) ?ids1 (vocab ?self1)" using inv' by simp
  have "train_loop k n ids self = train_loop (k + 1) n ?ids1 ?self1"
    using train_loop_unfold [OF lt sel body] .
  with fin have fin1: "train_loop (k + 1) n ?ids1 ?self1 = Inr (ids', self')" by simp
  from train_loop_inv [OF inv1, of n] fin1
  have mono: "\<And>x v. dict_get (vocab ?self1) x = Some v \<Longrightarrow> dict_get (vocab self') x = Some v"
    by auto
  have new: "dict_get (vocab self) (256 + k) = None"
    using inv by (simp add: train_inv_def dict_get_None_iff)
  from a new have "fst p \<noteq> 256 + k" by auto
  with a have "dict_get (vocab ?self1) (fst p) = Some a" by (simp add: dict_get_dict_set)
  then have ra: "dict_get (vocab self') (fst p) = Some a" by (rule mono)
  from b new have "snd p \<noteq> 256 + k" by auto
  with b have "dict_get (vocab ?self1) (snd p) = Some b" by (simp add: dict_get_dict_set)
  then have rb: "dict_get (vocab self') (snd p) = Some b" by (rule mono)
  have "dict_get (vocab ?self1) (256 + k) = Some (a @ b)" by (simp add: dict_get_dict_set)
  then have rx: "dict_get (vocab self') (256 + k) = Some (a @ b)" by (rule mono)
  have "train_loop k (k + 1) ids self = train_loop (k + 1) (k + 1) ?ids1 ?self1"
    by (rule train_loop_unfold [OF _ sel body]) simp
  also have "\<dots> = Inr (?ids1, ?self1)" by (rule train_loop_done) simp
  finally have "train_loop k (k + 1) ids self = train_body k ids self p" using body by simp
  with ra rb rx show ?thesis by blast
qed

text \<open>
  C5. Every training run returns, and in the vocabulary it leaves: each id from 0 to 255
  is mapped to its single byte; each merge-created id \<open>x\<close> (an id from 256 on that has an
  entry) was created in round \<open>x - 256\<close> of the loop, where the pair \<open>(l, r)\<close> was selected
  from the sequence at that point and the loop body ran for it, and its entry is the entry
  of \<open>l\<close> followed by the entry of \<open>r\<close>; and every entry that the vocabulary holds after
  some number of rounds of the run is in the final vocabulary with the same value, so
  nothing is removed or changed.
\<close>

theorem vocabulary_invariant:
  "\<exists>ids' self'. train self tx = Inr (ids', self')
     \<and> (\<forall>x. 0 \<le> x \<and> x < 256 \<longrightarrow> dict_get (vocab self') x = Some [char_of x])
     \<and> (\<forall>x. 256 \<le> x \<and> dict_get (vocab self') x \<noteq> None \<longrightarrow>
          (\<exists>ids_k self_k l r c a b.
             x - 256 < vocab_size self - 256
             \<and> train_upto self tx (x - 256) = Inr (ids_k, self_k)
             \<and> select_pair (get_stats ids_k) = Some ((l, r), c)
             \<and> train_upto self tx (x - 256 + 1) = train_body (x - 256) ids_k self_k (l, r)
             \<and> dict_get (vocab self') l = Some a \<and> dict_get (vocab self') r = Some b
             \<and> dict_get (vocab self') x = Some (a @ b)))
     \<and> (\<forall>k ids_k self_k x v.
          k \<le> vocab_size self - 256 \<and> train_upto self tx k = Inr (ids_k, self_k)
          \<and> dict_get (vocab self_k) x = Some v \<longrightarrow> dict_get (vocab self') x = Some v)"
proof -
  define n where "n = vocab_size self - 256"
  define ids0 :: "int list" where "ids0 = map of_char tx"
  define self0 where "self0 = self\<lparr>vocab := vocab_init\<rparr>"
  have inv0: "train_inv tx 0 ids0 (vocab self0)"
    unfolding ids0_def self0_def by (rule train_init_inv)
  have tr: "train self tx = train_loop 0 n ids0 self0"
    by (simp add: train_def Let_def n_def ids0_def self0_def)
  have up: "train_upto self tx k = train_loop 0 k ids0 self0" for k
    by (simp add: train_upto_def ids0_def self0_def)
  from train_loop_inv [OF inv0, of n] obtain ids' self' j where
    fin: "train_loop 0 n ids0 self0 = Inr (ids', self')"
    and invj: "train_inv tx j ids' (vocab self')"
    and j: "0 \<le> j" "j \<le> n \<or> j = 0" "n \<le> j \<or> get_stats ids' = []"
    and mono0: "\<And>x v. dict_get (vocab self0) x = Some v \<Longrightarrow> dict_get (vocab self') x = Some v"
    by blast
  have base: "\<forall>x. 0 \<le> x \<and> x < 256 \<longrightarrow> dict_get (vocab self') x = Some [char_of x]"
    using invj by (simp add: train_inv_def)
  have created: "\<exists>ids_k self_k l r c a b.
             x - 256 < vocab_size self - 256
             \<and> train_upto self tx (x - 256) = Inr (ids_k, self_k)
             \<and> select_pair (get_stats ids_k) = Some ((l, r), c)
             \<and> train_upto self tx (x - 256 + 1) = train_body (x - 256) ids_k self_k (l, r)
             \<and> dict_get (vocab self') l = Some a \<and> dict_get (vocab self') r = Some b
             \<and> dict_get (vocab self') x = Some (a @ b)"
    if x: "256 \<le> x \<and> dict_get (vocab self') x \<noteq> None" for x
  proof -
    define k where "k = x - 256"
    from x have "x \<in> fst ` set (vocab self')" by (simp add: dict_get_None_iff)
    with invj have "x < 256 + j" by (simp add: train_inv_def)
    with x have k: "0 \<le> k" "k < j" by (simp_all add: k_def)
    with j have kn: "k < n" by auto
    then have kn': "k \<le> n" by simp
    from train_prefix [OF inv0 k(1) kn'] obtain ids_k self_k jk where
      pre: "train_loop 0 k ids0 self0 = Inr (ids_k, self_k)"
      and invk: "train_inv tx jk ids_k (vocab self_k)"
      and jk: "jk \<le> k" "jk = k \<or> get_stats ids_k = []"
      and split: "train_loop 0 n ids0 self0 = train_loop k n ids_k self_k"
      by blast
    have ne: "get_stats ids_k \<noteq> []"
    proof
      assume "get_stats ids_k = []"
      then have "train_loop k n ids_k self_k = Inr (ids_k, self_k)"
        by (simp add: train_loop_done)
      with split fin have "self' = self_k" by simp
      with invk invj have "jk = j" by (auto dest: train_inv_index)
      with jk(1) k(2) show False by simp
    qed
    with jk have invk': "train_inv tx k ids_k (vocab self_k)" using invk by auto
    from ne obtain p c where sel: "select_pair (get_stats ids_k) = Some (p, c)"
      using select_pair_None_iff [of "get_stats ids_k"]
      by (cases "select_pair (get_stats ids_k)") auto
    from split fin have fink: "train_loop k n ids_k self_k = Inr (ids', self')" by simp
    from train_round [OF invk' kn sel fink] obtain a b where
      ra: "dict_get (vocab self') (fst p) = Some a"
      and rb: "dict_get (vocab self') (snd p) = Some b"
      and rx: "dict_get (vocab self') (256 + k) = Some (a @ b)"
      and one: "train_loop k (k + 1) ids_k self_k = train_body k ids_k self_k p"
      by blast
    have "train_loop 0 (k + 1) ids0 self0 = train_loop k (k + 1) ids_k self_k"
      by (rule train_loop_split [OF k(1) _ pre]) simp
    with one have step: "train_upto self tx (k + 1) = train_body k ids_k self_k (fst p, snd p)"
      by (simp add: up)
    have xk: "256 + k = x" by (simp add: k_def)
    from kn have "x - 256 < vocab_size self - 256" by (simp add: k_def n_def)
    moreover have "train_upto self tx (x - 256) = Inr (ids_k, self_k)"
      using pre by (simp add: up k_def)
    moreover have "select_pair (get_stats ids_k) = Some ((fst p, snd p), c)"
      using sel by simp
    moreover have "train_upto self tx (x - 256 + 1) = train_body (x - 256) ids_k self_k (fst p, snd p)"
      using step by (simp add: k_def)
    moreover have "dict_get (vocab self') x = Some (a @ b)"
      using rx xk by simp
    ultimately show ?thesis using ra rb by blast
  qed
  have kept: "dict_get (vocab self') x = Some v"
    if h: "k \<le> vocab_size self - 256 \<and> train_upto self tx k = Inr (ids_k, self_k)
          \<and> dict_get (vocab self_k) x = Some v" for k ids_k self_k x v
  proof (cases "0 \<le> k")
    case False
    then have "train_loop 0 k ids0 self0 = Inr (ids0, self0)"
      by (intro train_loop_done) simp
    with h have "self_k = self0" by (simp add: up)
    with h mono0 show ?thesis by simp
  next
    case True
    from h have kn: "k \<le> n" by (simp add: n_def)
    from train_prefix [OF inv0 True kn] h obtain jk where
      invk: "train_inv tx jk ids_k (vocab self_k)"
      and jk: "jk = k \<or> get_stats ids_k = []"
      and split: "train_loop 0 n ids0 self0 = train_loop k n ids_k self_k"
      by (auto simp: up)
    from split fin have fink: "train_loop k n ids_k self_k = Inr (ids', self')" by simp
    from jk show ?thesis
    proof
      assume "jk = k"
      with invk have "train_inv tx k ids_k (vocab self_k)" by simp
      from train_loop_inv [OF this, of n] fink h show ?thesis by auto
    next
      assume "get_stats ids_k = []"
      then have "train_loop k n ids_k self_k = Inr (ids_k, self_k)"
        by (simp add: train_loop_done)
      with fink have "self' = self_k" by simp
      with h show ?thesis by simp
    qed
  qed
  from tr fin have t: "train self tx = Inr (ids', self')" by simp
  show ?thesis
    apply (rule exI [of _ ids'])
    apply (rule exI [of _ self'])
    apply (intro conjI allI impI)
    subgoal by (rule t)
    subgoal using base by blast
    subgoal by (rule created)
    subgoal by (rule kept)
    done
qed

section \<open>Concrete runs\<close>

lemma dict_set_vocab_init: "256 \<le> k \<Longrightarrow> dict_set vocab_init k v = vocab_init @ [(k, v)]"
  by (rule dict_set_new) (simp add: keys_vocab_init)

lemma get_stats_pair: "get_stats [a, b] = [((a, b), 1)]"
  by (simp add: get_stats_def Counter_def counter_add_def dict_get_Nil)

lemma train_loop_one_pair:
  assumes "0 \<le> a" "a < 256" "0 \<le> b" "b < 256" "vocab self = vocab_init" "1 \<le> n"
  shows "train_loop 0 n [a, b] self =
     Inr ([256], self\<lparr>merges := dict_set (merges self) (a, b) 256,
                       vocab := vocab_init @ [(256, [char_of a, char_of b])]\<rparr>)"
proof -
  have sel: "select_pair (get_stats [a, b]) = Some ((a, b), 1)"
    by (simp add: get_stats_pair select_pair_def)
  have body: "train_body 0 [a, b] self (a, b) =
     Inr ([256], self\<lparr>merges := dict_set (merges self) (a, b) 256,
                       vocab := vocab_init @ [(256, [char_of a, char_of b])]\<rparr>)"
    using assms
    by (simp add: train_body_def Let_def dict_lookup_def dict_get_vocab_init merge_eq_rec
        dict_set_vocab_init)
  have stop: "get_stats [256] = []"
    by (rule get_stats_short) simp
  have "train_loop 0 n [a, b] self = train_loop (0 + 1) n [256]
      (self\<lparr>merges := dict_set (merges self) (a, b) 256,
            vocab := vocab_init @ [(256, [char_of a, char_of b])]\<rparr>)"
    by (rule train_loop_unfold [OF _ sel body]) (use assms in simp)
  also have "\<dots> = Inr ([256], self\<lparr>merges := dict_set (merges self) (a, b) 256,
                       vocab := vocab_init @ [(256, [char_of a, char_of b])]\<rparr>)"
    by (rule train_loop_done) (simp add: stop)
  finally show ?thesis .
qed

lemma train_two_bytes:
  assumes "257 \<le> vocab_size self"
  shows "train self [c, d] =
     Inr ([256], self\<lparr>merges := dict_set (merges self) (of_char c, of_char d) 256,
                       vocab := vocab_init @ [(256, [c, d])]\<rparr>)"
proof -
  have "train self [c, d] = train_loop 0 (vocab_size self - 256) [of_char c, of_char d]
      (self\<lparr>vocab := vocab_init\<rparr>)"
    by (simp add: train_def Let_def)
  also have "\<dots> = Inr ([256], self\<lparr>vocab := vocab_init\<rparr>
        \<lparr>merges := dict_set (merges (self\<lparr>vocab := vocab_init\<rparr>)) (of_char c, of_char d) 256,
         vocab := vocab_init @ [(256, [char_of (of_char c :: int), char_of (of_char d :: int)])]\<rparr>)"
    by (rule train_loop_one_pair) (use assms in \<open>simp_all add: of_char_int_range\<close>)
  finally show ?thesis by simp
qed

lemma train_aa:
  "train (BPETokenizer_init 257) ''aa'' =
     Inr ([256], \<lparr>vocab_size = 257, merges = [((97, 97), 256)],
                  vocab = vocab_init @ [(256, ''aa'')]\<rparr>)"
  by (simp add: train_two_bytes BPETokenizer_init_def)

lemma dict_get_append:
  "dict_get (xs @ ys) k = (case dict_get xs k of None \<Rightarrow> dict_get ys k | Some v \<Rightarrow> Some v)"
  by (induction xs) (auto simp: dict_get_def)

theorem vocabulary_invariant_witness:
  "\<exists>ids' self'. train (BPETokenizer_init 257) ''aa'' = Inr (ids', self')
     \<and> (0::int) \<le> 97 \<and> (97::int) < 256
     \<and> dict_get (vocab self') 97 = Some ''a''
     \<and> (256::int) \<le> 256 \<and> dict_get (vocab self') 256 \<noteq> None
     \<and> (\<exists>ids_k self_k l r c a b.
           train_upto (BPETokenizer_init 257) ''aa'' 0 = Inr (ids_k, self_k)
           \<and> select_pair (get_stats ids_k) = Some ((l, r), c)
           \<and> dict_get (vocab self') l = Some a \<and> dict_get (vocab self') r = Some b
           \<and> dict_get (vocab self') 256 = Some (a @ b))"
proof -
  from vocabulary_invariant [where self = "BPETokenizer_init 257" and tx = "''aa''"]
  obtain ids' self' where t: "train (BPETokenizer_init 257) ''aa'' = Inr (ids', self')"
    and base: "\<forall>x. 0 \<le> x \<and> x < 256 \<longrightarrow> dict_get (vocab self') x = Some [char_of x]"
    and created: "\<forall>x. 256 \<le> x \<and> dict_get (vocab self') x \<noteq> None \<longrightarrow>
          (\<exists>ids_k self_k l r c a b.
             x - 256 < vocab_size (BPETokenizer_init 257) - 256
             \<and> train_upto (BPETokenizer_init 257) ''aa'' (x - 256) = Inr (ids_k, self_k)
             \<and> select_pair (get_stats ids_k) = Some ((l, r), c)
             \<and> train_upto (BPETokenizer_init 257) ''aa'' (x - 256 + 1) =
                 train_body (x - 256) ids_k self_k (l, r)
             \<and> dict_get (vocab self') l = Some a \<and> dict_get (vocab self') r = Some b
             \<and> dict_get (vocab self') x = Some (a @ b))"
    by (elim exE conjE)
  from t have "self' = \<lparr>vocab_size = 257, merges = [((97, 97), 256)],
      vocab = vocab_init @ [(256, ''aa'')]\<rparr>"
    unfolding train_aa by simp
  then have "vocab self' = vocab_init @ [(256, ''aa'')]"
    by simp
  then have e: "dict_get (vocab self') 256 \<noteq> None"
    by (simp add: dict_get_append dict_get_vocab_init dict_get_Cons)
  have "(97::int) = of_char CHR ''a''" by simp
  then have "char_of (97::int) = CHR ''a''" by (simp only: char_of_char)
  with base have b97: "dict_get (vocab self') 97 = Some ''a''"
    by simp
  from created e have "\<exists>ids_k self_k l r c a b.
           train_upto (BPETokenizer_init 257) ''aa'' 0 = Inr (ids_k, self_k)
           \<and> select_pair (get_stats ids_k) = Some ((l, r), c)
           \<and> dict_get (vocab self') l = Some a \<and> dict_get (vocab self') r = Some b
           \<and> dict_get (vocab self') 256 = Some (a @ b)"
    by fastforce
  with t e b97 show ?thesis by simp
qed

text \<open>
  C2 fails on the code. \<^verbatim>\<open>train\<close> assigns a new \<open>vocab\<close> but never clears \<open>merges\<close>:
  a tokenizer of size 257 trained on \<^verbatim>\<open>"aa"\<close> and then on \<^verbatim>\<open>"bb"\<close> keeps the rule
  \<open>(97, 97) \<rightarrow> 256\<close> of the first run beside the rule \<open>(98, 98) \<rightarrow> 256\<close> of the second,
  while a tokenizer just constructed and trained on \<^verbatim>\<open>"bb"\<close> has the second rule only.
  The vocabularies of the two agree.
\<close>

theorem retrain_keeps_old_merges:
  "train (BPETokenizer_init 257) ''aa'' =
     Inr ([256], \<lparr>vocab_size = 257, merges = [((97, 97), 256)],
                  vocab = vocab_init @ [(256, ''aa'')]\<rparr>)
   \<and> train \<lparr>vocab_size = 257, merges = [((97, 97), 256)],
            vocab = vocab_init @ [(256, ''aa'')]\<rparr> ''bb'' =
     Inr ([256], \<lparr>vocab_size = 257, merges = [((97, 97), 256), ((98, 98), 256)],
                  vocab = vocab_init @ [(256, ''bb'')]\<rparr>)
   \<and> train (BPETokenizer_init 257) ''bb'' =
     Inr ([256], \<lparr>vocab_size = 257, merges = [((98, 98), 256)],
                  vocab = vocab_init @ [(256, ''bb'')]\<rparr>)
   \<and> [((97, 97), 256), ((98, 98), 256)] \<noteq> [((98::int, 98::int), 256::int)]"
  by (simp add: train_two_bytes BPETokenizer_init_def)

section \<open>The merge table of a run that starts empty\<close>

lemma drop_1_tl: "drop 1 xs = tl xs"
  by (cases xs) simp_all

lemma adjacent_Cons:
  "zs \<noteq> [] \<Longrightarrow> zip (a # zs) (tl (a # zs)) = (a, hd zs) # zip zs (tl zs)"
  by (cases zs) simp_all

lemma hd_merge_rec:
  "merge_rec pair idx (y # zs) \<noteq> []
   \<and> (hd (merge_rec pair idx (y # zs)) = idx \<or> hd (merge_rec pair idx (y # zs)) = y)"
  by (cases zs) auto

lemma adjacent_merge_rec:
  "(x, y) \<in> set (zip (merge_rec pair idx ids) (tl (merge_rec pair idx ids))) \<Longrightarrow>
   x \<noteq> idx \<Longrightarrow> y \<noteq> idx \<Longrightarrow>
   (x, y) \<in> set (zip ids (tl ids)) \<and> (x, y) \<noteq> pair"
proof (induction pair idx ids rule: merge_rec.induct)
  case (3 pair idx u v zs)
  show ?case
  proof (cases "(u, v) = pair")
    case True
    then have m: "merge_rec pair idx (u # v # zs) = idx # merge_rec pair idx zs" by simp
    show ?thesis
    proof (cases "merge_rec pair idx zs = []")
      case True
      with m "3.prems" show ?thesis by simp
    next
      case False
      from "3.prems"(1) have "(x, y) \<in> set ((idx, hd (merge_rec pair idx zs)) #
          zip (merge_rec pair idx zs) (tl (merge_rec pair idx zs)))"
        unfolding m adjacent_Cons [OF False] .
      with "3.prems"(2) have "(x, y) \<in> set (zip (merge_rec pair idx zs) (tl (merge_rec pair idx zs)))"
        by auto
      from "3.IH"(1) [OF True this "3.prems"(2,3)]
      have "(x, y) \<in> set (zip zs (tl zs))" "(x, y) \<noteq> pair" by simp_all
      moreover have "set (zip zs (tl zs)) \<subseteq> set (zip (u # v # zs) (tl (u # v # zs)))"
        by (cases zs) auto
      ultimately show ?thesis by blast
    qed
  next
    case False
    then have m: "merge_rec pair idx (u # v # zs) = u # merge_rec pair idx (v # zs)" by simp
    from hd_merge_rec [of pair idx v zs]
    have ne: "merge_rec pair idx (v # zs) \<noteq> []"
      and hd: "hd (merge_rec pair idx (v # zs)) = idx \<or> hd (merge_rec pair idx (v # zs)) = v"
      by simp_all
    from "3.prems"(1) have "(x, y) \<in> set ((u, hd (merge_rec pair idx (v # zs))) #
          zip (merge_rec pair idx (v # zs)) (tl (merge_rec pair idx (v # zs))))"
      unfolding m adjacent_Cons [OF ne] .
    then consider (head) "x = u" "y = hd (merge_rec pair idx (v # zs))"
      | (rest) "(x, y) \<in> set (zip (merge_rec pair idx (v # zs)) (tl (merge_rec pair idx (v # zs))))"
      by auto
    then show ?thesis
    proof cases
      case head
      with hd "3.prems"(3) have "y = v" by auto
      with head False show ?thesis by auto
    next
      case rest
      from "3.IH"(2) [OF False rest "3.prems"(2,3)]
      have "(x, y) \<in> set (zip (v # zs) (tl (v # zs)))" "(x, y) \<noteq> pair" by simp_all
      then show ?thesis by auto
    qed
  qed
next
  case (1 pair idx)
  then show ?case by simp
next
  case (2 pair idx v)
  then show ?case by simp
qed

lemma adjacent_merge:
  "(x, y) \<in> set (zip (merge ids pair idx) (drop 1 (merge ids pair idx))) \<Longrightarrow>
   x \<noteq> idx \<Longrightarrow> y \<noteq> idx \<Longrightarrow>
   (x, y) \<in> set (zip ids (drop 1 ids)) \<and> (x, y) \<noteq> pair"
  unfolding merge_eq_rec drop_1_tl by (rule adjacent_merge_rec)

lemma fresh_inv_step:
  assumes inv: "train_inv tx i ids vc" and fr: "fresh_inv i ids ms"
    and sel: "select_pair (get_stats ids) = Some (p, c)"
  shows "dict_set ms p (256 + i) = ms @ [(p, 256 + i)]
     \<and> fresh_inv (i + 1) (merge ids p (256 + i)) (ms @ [(p, 256 + i)])"
proof -
  from inv have i0: "0 \<le> i" and keys: "fst ` set vc = {0..<256 + i}"
    and ex: "expand vc ids = Some tx"
    by (simp_all add: train_inv_def)
  from expand_keys [OF ex] keys have bound: "\<And>x. x \<in> set ids \<Longrightarrow> x < 256 + i" by auto
  from select_pair_adjacent [OF sel] have adj: "p \<in> set (zip ids (drop 1 ids))" .
  with adjacent_members have mem: "fst p \<in> set ids" "snd p \<in> set ids" by blast+
  then have pb: "fst p < 256 + i" "snd p < 256 + i" using bound by blast+
  from fr have len: "length ms = nat i"
    and old: "\<And>e. e \<in> set ms \<Longrightarrow> fst e \<notin> set (zip ids (drop 1 ids))
        \<and> fst (fst e) < 256 + i \<and> snd (fst e) < 256 + i"
    by (simp_all add: fresh_inv_def)
  have "p \<notin> fst ` set ms" using adj old by auto
  then have app: "dict_set ms p (256 + i) = ms @ [(p, 256 + i)]" by (rule dict_set_new)
  let ?m = "merge ids p (256 + i)"
  have notadj: "q \<notin> set (zip ?m (drop 1 ?m))"
    if q: "fst q < 256 + i" "snd q < 256 + i"
      "q \<in> set (zip ids (drop 1 ids)) \<Longrightarrow> q = p" for q
  proof
    assume "q \<in> set (zip ?m (drop 1 ?m))"
    then have "(fst q, snd q) \<in> set (zip ?m (drop 1 ?m))" by simp
    from adjacent_merge [OF this] q(1,2)
    have "(fst q, snd q) \<in> set (zip ids (drop 1 ids))" "(fst q, snd q) \<noteq> p" by auto
    with q(3) show False by simp
  qed
  have "length (ms @ [(p, 256 + i)]) = nat (i + 1)" using len i0 by simp
  moreover have "fst e \<notin> set (zip ?m (drop 1 ?m))
        \<and> fst (fst e) < 256 + (i + 1) \<and> snd (fst e) < 256 + (i + 1)"
    if "e \<in> set (ms @ [(p, 256 + i)])" for e
  proof (cases "e \<in> set ms")
    case True
    from old [OF True] notadj [of "fst e"] show ?thesis by auto
  next
    case False
    with that have "fst e = p" by simp
    with pb notadj [of p] show ?thesis by auto
  qed
  ultimately have "fresh_inv (i + 1) ?m (ms @ [(p, 256 + i)])"
    unfolding fresh_inv_def by blast
  with app show ?thesis by simp
qed

section \<open>The merge table after construction and training\<close>

lemma train_upto_fresh:
  assumes m0: "merges self = []"
  shows "\<exists>ids_k self_k j. train_upto self tx (int k) = Inr (ids_k, self_k)
     \<and> train_inv tx j ids_k (vocab self_k) \<and> j \<le> int k
     \<and> (j = int k \<or> get_stats ids_k = [])
     \<and> fresh_inv j ids_k (merges self_k)
     \<and> (\<forall>i < length (merges self_k). recorded_in_round self tx i (merges self_k ! i))"
proof (induction k)
  case 0
  have "train_upto self tx (int 0) = Inr (map of_char tx, self\<lparr>vocab := vocab_init\<rparr>)"
    unfolding train_upto_def by (rule train_loop_done) simp
  moreover have "train_inv tx 0 (map of_char tx) (vocab (self\<lparr>vocab := vocab_init\<rparr>))"
    by (rule train_init_inv)
  moreover have "fresh_inv 0 (map of_char tx) (merges (self\<lparr>vocab := vocab_init\<rparr>))"
    using m0 by (simp add: fresh_inv_def)
  moreover have "\<forall>i < length (merges (self\<lparr>vocab := vocab_init\<rparr>)).
      recorded_in_round self tx i (merges (self\<lparr>vocab := vocab_init\<rparr>) ! i)"
    using m0 by simp
  ultimately show ?case
    by (intro exI [of _ "map of_char tx"] exI [of _ "self\<lparr>vocab := vocab_init\<rparr>"]
        exI [of _ 0]) simp
next
  case (Suc k)
  then obtain ids_k self_k j where
    pre: "train_upto self tx (int k) = Inr (ids_k, self_k)"
    and inv: "train_inv tx j ids_k (vocab self_k)" and j: "j \<le> int k"
      "j = int k \<or> get_stats ids_k = []"
    and fr: "fresh_inv j ids_k (merges self_k)"
    and rec: "\<forall>i < length (merges self_k). recorded_in_round self tx i (merges self_k ! i)"
    by blast
  have split: "train_upto self tx (int (Suc k)) = train_loop (int k) (int k + 1) ids_k self_k"
    using train_loop_split [of 0 "int k" "int k + 1" "map of_char tx"
        "self\<lparr>vocab := vocab_init\<rparr>" ids_k self_k] pre
    by (simp add: train_upto_def add.commute)
  show ?case
  proof (cases "get_stats ids_k = []")
    case True
    then have "train_loop (int k) (int k + 1) ids_k self_k = Inr (ids_k, self_k)"
      by (simp add: train_loop_done)
    with split have "train_upto self tx (int (Suc k)) = Inr (ids_k, self_k)" by simp
    with inv j fr rec True show ?thesis
      by (intro exI [of _ ids_k] exI [of _ self_k] exI [of _ j]) simp
  next
    case False
    with j have jk: "j = int k" by simp
    from False obtain p c where sel: "select_pair (get_stats ids_k) = Some (p, c)"
      using select_pair_None_iff [of "get_stats ids_k"]
      by (cases "select_pair (get_stats ids_k)") auto
    from inv jk have invk: "train_inv tx (int k) ids_k (vocab self_k)" by simp
    from train_body_step [OF invk sel] obtain a b where
      a: "dict_get (vocab self_k) (fst p) = Some a"
      and b: "dict_get (vocab self_k) (snd p) = Some b"
      and body: "train_body (int k) ids_k self_k p =
         Inr (merge ids_k p (256 + int k),
              self_k\<lparr>merges := dict_set (merges self_k) p (256 + int k),
                     vocab := dict_set (vocab self_k) (256 + int k) (a @ b)\<rparr>)"
      and inv': "train_inv tx (int k + 1) (merge ids_k p (256 + int k))
          (dict_set (vocab self_k) (256 + int k) (a @ b))"
      by blast
    from fr jk have frk: "fresh_inv (int k) ids_k (merges self_k)" by simp
    from fresh_inv_step [OF invk frk sel]
    have app: "dict_set (merges self_k) p (256 + int k) = merges self_k @ [(p, 256 + int k)]"
      and fr': "fresh_inv (int k + 1) (merge ids_k p (256 + int k))
          (merges self_k @ [(p, 256 + int k)])"
      by simp_all
    let ?ids1 = "merge ids_k p (256 + int k)"
    let ?self1 = "self_k\<lparr>merges := merges self_k @ [(p, 256 + int k)],
                     vocab := dict_set (vocab self_k) (256 + int k) (a @ b)\<rparr>"
    from body app have body': "train_body (int k) ids_k self_k p = Inr (?ids1, ?self1)"
      by simp
    have "train_loop (int k) (int k + 1) ids_k self_k =
          train_loop (int k + 1) (int k + 1) ?ids1 ?self1"
      by (rule train_loop_unfold [OF _ sel body']) simp
    also have "\<dots> = Inr (?ids1, ?self1)" by (rule train_loop_done) simp
    finally have r: "train_upto self tx (int (Suc k)) = Inr (?ids1, ?self1)"
      using split by simp
    from frk have len: "length (merges self_k) = k" by (simp add: fresh_inv_def)
    have new: "recorded_in_round self tx k (p, 256 + int k)"
      unfolding recorded_in_round_def using pre sel a b by auto
    have rec': "recorded_in_round self tx i (merges ?self1 ! i)"
      if "i < length (merges ?self1)" for i
    proof (cases "i < k")
      case True
      with rec len show ?thesis by (simp add: nth_append)
    next
      case False
      with that len have "i = k" by simp
      with new len show ?thesis by (simp add: nth_append)
    qed
    have "train_inv tx (int (Suc k)) ?ids1 (vocab ?self1)"
      using inv' by (simp add: add.commute)
    moreover have "fresh_inv (int (Suc k)) ?ids1 (merges ?self1)"
      using fr' by (simp add: add.commute)
    ultimately show ?thesis using r rec'
      by (intro exI [of _ ?ids1] exI [of _ ?self1] exI [of _ "int (Suc k)"]) simp
  qed
qed

lemma train_eq_upto:
  "train self tx = train_upto self tx (int (nat (vocab_size self - 256)))"
proof (cases "0 \<le> vocab_size self - 256")
  case True
  then show ?thesis by (simp add: train_def train_upto_def Let_def)
next
  case False
  then have "train_loop 0 (vocab_size self - 256) (map of_char tx) (self\<lparr>vocab := vocab_init\<rparr>)
      = Inr (map of_char tx, self\<lparr>vocab := vocab_init\<rparr>)"
    by (intro train_loop_done) simp
  moreover have "train_loop 0 0 (map of_char tx) (self\<lparr>vocab := vocab_init\<rparr>)
      = Inr (map of_char tx, self\<lparr>vocab := vocab_init\<rparr>)"
    by (intro train_loop_done) simp
  ultimately show ?thesis using False by (simp add: train_def train_upto_def Let_def)
qed

lemma get_stats_empty_iff: "get_stats ids = [] \<longleftrightarrow> length ids \<le> 1"
proof -
  have "zip ids (drop 1 ids) = [] \<longleftrightarrow> length ids \<le> 1"
    by (cases ids) auto
  then show ?thesis
    unfolding get_stats_def Counter_empty_iff .
qed

text \<open>
  For a tokenizer that is constructed and then trained once, the ids in the merge table
  are, in the order of the table, \<open>256, 257, \<dots>\<close>; the rule at position \<open>i\<close> was recorded
  in round \<open>i\<close> of the loop with the id \<open>256 + i\<close>, for the pair selected after \<open>i\<close>
  rounds, and both ids of that pair had entries in the vocabulary of that moment.
\<close>

lemma fresh_merge_table_ids:
  "\<exists>ids' self'. train (BPETokenizer_init vs) tx = Inr (ids', self')
     \<and> map snd (merges self') = map (\<lambda>i. 256 + int i) [0..<length (merges self')]
     \<and> sorted_wrt (<) (map snd (merges self'))
     \<and> (\<forall>i < length (merges self'). \<exists>ids_i self_i c.
            train_upto (BPETokenizer_init vs) tx (int i) = Inr (ids_i, self_i)
          \<and> select_pair (get_stats ids_i) = Some (fst (merges self' ! i), c)
          \<and> dict_get (vocab self_i) (fst (fst (merges self' ! i))) \<noteq> None
          \<and> dict_get (vocab self_i) (snd (fst (merges self' ! i))) \<noteq> None
          \<and> snd (merges self' ! i) = 256 + int i)"
proof -
  have m0: "merges (BPETokenizer_init vs) = []" by (simp add: BPETokenizer_init_def)
  from train_upto_fresh [OF m0, of tx "nat (vocab_size (BPETokenizer_init vs) - 256)"]
  obtain ids' self' where
    t: "train (BPETokenizer_init vs) tx = Inr (ids', self')"
    and rec: "\<forall>i < length (merges self'). recorded_in_round (BPETokenizer_init vs) tx i (merges self' ! i)"
    unfolding train_eq_upto [symmetric] by blast
  have ids: "snd (merges self' ! i) = 256 + int i" if "i < length (merges self')" for i
    using rec that by (auto simp: recorded_in_round_def)
  have eq: "map snd (merges self') = map (\<lambda>i. 256 + int i) [0..<length (merges self')]"
    by (rule nth_equalityI) (simp_all add: ids)
  have "sorted_wrt (<) (map (\<lambda>i. 256 + int i) [0..<length (merges self')])"
    by (simp add: sorted_wrt_map)
  with eq have so: "sorted_wrt (<) (map snd (merges self'))" by simp
  show ?thesis
    apply (rule exI [of _ ids'])
    apply (rule exI [of _ self'])
    apply (intro conjI)
    subgoal by (rule t)
    subgoal by (rule eq)
    subgoal by (rule so)
    subgoal using rec unfolding recorded_in_round_def by blast
    done
qed

text \<open>
  C6 fails on the code, by the defect of C2: \<^verbatim>\<open>train\<close> starts its ids at 256 again but
  keeps the rules of an earlier run in \<open>merges\<close>. A tokenizer of size 257 trained on
  \<^verbatim>\<open>"aa"\<close> and then on \<^verbatim>\<open>"bb"\<close> is a trained tokenizer whose merge table holds, in
  creation order, the ids \<open>256, 256\<close>, which is not strictly increasing.
\<close>

theorem retrain_table_ids_repeat:
  "train (BPETokenizer_init 257) ''aa'' =
     Inr ([256], \<lparr>vocab_size = 257, merges = [((97, 97), 256)],
                  vocab = vocab_init @ [(256, ''aa'')]\<rparr>)
   \<and> train \<lparr>vocab_size = 257, merges = [((97, 97), 256)],
            vocab = vocab_init @ [(256, ''aa'')]\<rparr> ''bb'' =
     Inr ([256], \<lparr>vocab_size = 257, merges = [((97, 97), 256), ((98, 98), 256)],
                  vocab = vocab_init @ [(256, ''bb'')]\<rparr>)
   \<and> map snd
        (merges \<lparr>vocab_size = 257, merges = [((97, 97), 256), ((98, 98), 256)],
                 vocab = vocab_init @ [(256, ''bb'')]\<rparr>) = [256, 256]
   \<and> \<not> sorted_wrt (<) [256::int, 256]"
  by (simp add: train_two_bytes BPETokenizer_init_def)

text \<open>
  C7, as the claim states it, fails: the size is not checked, and for a tokenizer of size
  100 the text \<^verbatim>\<open>"aa"\<close> is trained without error and without a merge. The merge table
  then holds 0 rules, which is more than \<open>100 - 256\<close>, and the sequence \<open>[97, 97]\<close> of
  length 2 has not collapsed.
\<close>

theorem merge_count_below_256_counterexample:
  "train (BPETokenizer_init 100) ''aa'' =
     Inr ([97, 97], \<lparr>vocab_size = 100, merges = [], vocab = vocab_init\<rparr>)
   \<and> \<not> int (length (merges \<lparr>vocab_size = 100, merges = [], vocab = vocab_init\<rparr>))
          \<le> 100 - 256
   \<and> int (length (merges \<lparr>vocab_size = 100, merges = [], vocab = vocab_init\<rparr>))
          \<noteq> 100 - 256
   \<and> \<not> length [97::int, 97] \<le> 1"
  by (simp add: train_no_merges BPETokenizer_init_def)

text \<open>
  C7, amended. Training a tokenizer whose merge table is empty, as it is after
  construction, returns without error for every text and every size. The number of rules
  in the merge table is then at most \<open>max 0 (size - 256)\<close>, and it is equal to that number
  unless the loop stopped early, which it does only when no adjacent pair is left: the
  returned sequence then has length at most 1. The returned sequence is the rewritten
  text (it expands to the text through the vocabulary), the vocabulary has one entry
  beyond the 256 base entries for each rule, and the rule at position \<open>i\<close> of the table is
  the pair that the loop selected after \<open>i\<close> rounds, recorded with the id \<open>256 + i\<close>.
\<close>

theorem merge_count_bound:
  "merges self = [] \<Longrightarrow>
   \<exists>ids' self'. train self tx = Inr (ids', self')
     \<and> expand (vocab self') ids' = Some tx
     \<and> fst ` set (vocab self') = {0..<256 + int (length (merges self'))}
     \<and> int (length (merges self')) \<le> max 0 (vocab_size self - 256)
     \<and> (int (length (merges self')) = max 0 (vocab_size self - 256)
         \<or> (get_stats ids' = [] \<and> length ids' \<le> 1))
     \<and> (\<forall>i < length (merges self'). \<exists>ids_i self_i c.
            train_upto self tx (int i) = Inr (ids_i, self_i)
          \<and> select_pair (get_stats ids_i) = Some (fst (merges self' ! i), c)
          \<and> snd (merges self' ! i) = 256 + int i)"
proof -
  assume m0: "merges self = []"
  have n: "int (nat (vocab_size self - 256)) = max 0 (vocab_size self - 256)"
    by simp
  from train_upto_fresh [OF m0, of tx "nat (vocab_size self - 256)"]
  obtain ids' self' j where
    t: "train self tx = Inr (ids', self')"
    and inv: "train_inv tx j ids' (vocab self')"
    and j: "j \<le> int (nat (vocab_size self - 256))"
      "j = int (nat (vocab_size self - 256)) \<or> get_stats ids' = []"
    and fr: "fresh_inv j ids' (merges self')"
    and rec: "\<forall>i < length (merges self'). recorded_in_round self tx i (merges self' ! i)"
    unfolding train_eq_upto [symmetric] by blast
  from inv have j0: "0 \<le> j" and keys: "fst ` set (vocab self') = {0..<256 + j}"
    and ex: "expand (vocab self') ids' = Some tx"
    by (simp_all add: train_inv_def)
  from fr j0 have len: "int (length (merges self')) = j" by (simp add: fresh_inv_def)
  from j(2) have stop: "j = max 0 (vocab_size self - 256)
      \<or> (get_stats ids' = [] \<and> length ids' \<le> 1)"
    using get_stats_empty_iff [of ids'] n by auto
  from j(1) n have le: "j \<le> max 0 (vocab_size self - 256)" by simp
  show ?thesis
    apply (rule exI [of _ ids'])
    apply (rule exI [of _ self'])
    apply (intro conjI)
    subgoal by (rule t)
    subgoal by (rule ex)
    subgoal using keys len by simp
    subgoal using le len by simp
    subgoal using stop len by simp
    subgoal using rec unfolding recorded_in_round_def by blast
    done
qed

theorem merge_count_bound_witness:
  "merges (BPETokenizer_init 258) = []
   \<and> (\<exists>ids' self'. train (BPETokenizer_init 258) ''aa'' = Inr (ids', self')
        \<and> expand (vocab self') ids' = Some ''aa''
        \<and> length (merges self') = 1
        \<and> int (length (merges self')) \<le> max 0 (vocab_size (BPETokenizer_init 258) - 256)
        \<and> get_stats ids' = [] \<and> length ids' \<le> 1
        \<and> (0::nat) < length (merges self')
        \<and> (\<exists>ids_i self_i c.
              train_upto (BPETokenizer_init 258) ''aa'' (int 0) = Inr (ids_i, self_i)
            \<and> select_pair (get_stats ids_i) = Some (fst (merges self' ! 0), c)
            \<and> snd (merges self' ! 0) = 256 + int 0))"
proof -
  have m0: "merges (BPETokenizer_init 258) = []" by (simp add: BPETokenizer_init_def)
  from merge_count_bound [OF m0, of "''aa''"]
  obtain ids' self' where t: "train (BPETokenizer_init 258) ''aa'' = Inr (ids', self')"
    and ex: "expand (vocab self') ids' = Some ''aa''"
    and le: "int (length (merges self')) \<le> max 0 (vocab_size (BPETokenizer_init 258) - 256)"
    and rec: "\<forall>i < length (merges self'). \<exists>ids_i self_i c.
            train_upto (BPETokenizer_init 258) ''aa'' (int i) = Inr (ids_i, self_i)
          \<and> select_pair (get_stats ids_i) = Some (fst (merges self' ! i), c)
          \<and> snd (merges self' ! i) = 256 + int i"
    by (elim exE conjE)
  have "train (BPETokenizer_init 258) ''aa'' =
      Inr ([256], \<lparr>vocab_size = 258, merges = [((97, 97), 256)],
                   vocab = vocab_init @ [(256, ''aa'')]\<rparr>)"
    by (simp add: train_two_bytes BPETokenizer_init_def)
  with t have i: "ids' = [256]" and s: "self' = \<lparr>vocab_size = 258, merges = [((97, 97), 256)],
      vocab = vocab_init @ [(256, ''aa'')]\<rparr>"
    by simp_all
  from s have len: "length (merges self') = 1" by simp
  from i have stop: "get_stats ids' = []" "length ids' \<le> 1"
    by (simp_all add: get_stats_short)
  from rec len have r0: "\<exists>ids_i self_i c.
              train_upto (BPETokenizer_init 258) ''aa'' (int 0) = Inr (ids_i, self_i)
            \<and> select_pair (get_stats ids_i) = Some (fst (merges self' ! 0), c)
            \<and> snd (merges self' ! 0) = 256 + int 0"
    by simp
  from len have pos: "0 < length (merges self')" by simp
  show ?thesis
    apply (rule conjI)
    subgoal by (rule m0)
    apply (rule exI [of _ ids'])
    apply (rule exI [of _ self'])
    apply (intro conjI)
    subgoal by (rule t)
    subgoal by (rule ex)
    subgoal by (rule len)
    subgoal by (rule le)
    subgoal by (rule stop)
    subgoal by (rule stop)
    subgoal by (rule pos)
    subgoal by (rule r0)
    done
qed

end
